theory Spec2Isabelle
  imports Main "HOL-Library.Multiset" "HOL-Library.Monad_Syntax"
begin

chapter \<open>The programs\<close>

text \<open>
  The repository holds four variants of one pipeline: harvest proxy addresses from a
  list of sources, drop repeats, probe every address through a bounded number of
  concurrent checks, and write the live ones to a file. They are referred to as
  \<^item> \<^verbatim>\<open>deep.go\<close>: a goroutine per proxy behind a semaphore channel, three probe targets,
    two successes needed;
  \<^item> the worker program (the first unnamed source file): 150 workers on a channel, one
    probe target;
  \<^item> the collector program (the first program of the second unnamed file): a goroutine
    per proxy behind a semaphore, two targets, both needed;
  \<^item> the \<^verbatim>\<open>ProxyChecker\<close> program (the second program of that file): 100 workers, harvest
    with retries, two targets, one success needed.
\<close>


section \<open>Deduplication\<close>

text \<open>
  \<^verbatim>\<open>deduplicateProxies\<close> of \<^verbatim>\<open>deep.go\<close>: one pass over the slice with a
  \<^verbatim>\<open>map[string]bool\<close> of the addresses already seen and the result slice that
  \<^verbatim>\<open>append\<close> grows at its end. The loop is the recursive function below; its two
  accumulators are the map and the result.
\<close>

fun deduplicateProxies_loop ::
  "(string \<rightharpoonup> bool) \<Rightarrow> string list \<Rightarrow> string list \<Rightarrow> string list" where
  "deduplicateProxies_loop unique result [] = result"
| "deduplicateProxies_loop unique result (proxy # proxies) =
     (case unique proxy of
        None \<Rightarrow> deduplicateProxies_loop (unique(proxy \<mapsto> True)) (result @ [proxy]) proxies
      | Some b \<Rightarrow> deduplicateProxies_loop unique result proxies)"

definition deduplicateProxies :: "string list \<Rightarrow> string list" where
  "deduplicateProxies proxies = deduplicateProxies_loop Map.empty [] proxies"

text \<open>
  The \<^verbatim>\<open>Proxy\<close> struct of the \<^verbatim>\<open>ProxyChecker\<close> program and its
  \<^verbatim>\<open>removeDuplicateProxies\<close>, which keys the seen-map by the \<^verbatim>\<open>Full\<close> field and reads
  it with \<^verbatim>\<open>!seen[proxy.Full]\<close>: a missing key reads as \<^verbatim>\<open>false\<close>.
\<close>

record Proxy =
  IP :: string
  Port :: string
  Full :: string

definition seen_lookup :: "(string \<rightharpoonup> bool) \<Rightarrow> string \<Rightarrow> bool" where
  "seen_lookup seen k = (case seen k of None \<Rightarrow> False | Some b \<Rightarrow> b)"

fun removeDuplicateProxies_loop ::
  "(string \<rightharpoonup> bool) \<Rightarrow> Proxy list \<Rightarrow> Proxy list \<Rightarrow> Proxy list" where
  "removeDuplicateProxies_loop seen unique [] = unique"
| "removeDuplicateProxies_loop seen unique (proxy # proxies) =
     (if \<not> seen_lookup seen (Full proxy)
      then removeDuplicateProxies_loop (seen(Full proxy \<mapsto> True)) (unique @ [proxy]) proxies
      else removeDuplicateProxies_loop seen unique proxies)"

definition removeDuplicateProxies :: "Proxy list \<Rightarrow> Proxy list" where
  "removeDuplicateProxies proxies = removeDuplicateProxies_loop Map.empty [] proxies"

text \<open>
  The first occurrences of a list under a key, written with positions: the element at
  position \<open>i\<close> is kept when no earlier position holds the same key.
\<close>

definition first_occurrences :: "('a \<Rightarrow> 'k) \<Rightarrow> 'a list \<Rightarrow> 'a list" where
  "first_occurrences key xs =
     map (\<lambda>i. xs ! i)
       (filter (\<lambda>i. key (xs ! i) \<notin> key ` set (take i xs)) [0..<length xs])"

text \<open>The same selection as a recursion that carries the keys seen so far.\<close>

fun firsts_from :: "('a \<Rightarrow> 'k) \<Rightarrow> 'k set \<Rightarrow> 'a list \<Rightarrow> 'a list" where
  "firsts_from key S [] = []"
| "firsts_from key S (x # xs) =
     (if key x \<in> S then firsts_from key S xs else x # firsts_from key (insert (key x) S) xs)"

section \<open>The network as seen by the programs\<close>

text \<open>
  A Go \<^verbatim>\<open>error\<close> value is a message, a message wrapped around another error
  (\<^verbatim>\<open>fmt.Errorf("...: %w", err)\<close>), or a message that prints a status code
  (\<^verbatim>\<open>fmt.Errorf("HTTP %d", code)\<close>). An HTTP response, as far as the programs read it,
  is its status code and what reading its body gives: the bytes, or the error of
  \<^verbatim>\<open>io.ReadAll\<close>.
\<close>

datatype error = Error string | Wrap string error | StatusError string int

record Response =
  StatusCode :: int
  Body :: "error + string"

text \<open>
  What the programs cannot decide themselves is a parameter of the model:
  \<^item> \<^verbatim>\<open>url_Parse\<close> is \<^verbatim>\<open>url.Parse\<close> of the standard library; \<open>'u\<close> stands for \<^verbatim>\<open>*url.URL\<close>;
  \<^item> \<^verbatim>\<open>http_Do u target\<close> is one GET of \<^verbatim>\<open>target\<close> sent through the proxy \<^verbatim>\<open>u\<close>, from
    building the request to \<^verbatim>\<open>client.Do\<close> (or \<^verbatim>\<open>client.Get\<close>) returning: \<^verbatim>\<open>Inl\<close> when
    \<^verbatim>\<open>err != nil\<close> at either place (time-out and refused connection included),
    \<^verbatim>\<open>Inr\<close> the response otherwise.
  \<^verbatim>\<open>deep.go\<close> and the \<^verbatim>\<open>ProxyChecker\<close> program remove the duplicates before they validate,
  so they probe a proxy address at most once against each target in a run, and a function
  of proxy and target describes the run's network. The worker program removes the
  duplicates after the check, so it may probe an address again; the model gives the second
  probe the answer of the first.
\<close>

record 'u world =
  url_Parse :: "string \<Rightarrow> error + 'u"
  http_Do :: "'u \<Rightarrow> string \<Rightarrow> error + Response"

subsection \<open>\<^verbatim>\<open>strings.TrimSpace\<close>\<close>

text \<open>
  \<^verbatim>\<open>strings.TrimSpace\<close> removes the white space of Unicode at both ends of a string. A Go
  string is a byte sequence; the white-space code points are, in UTF-8, the six ASCII
  bytes tab, line feed, vertical tab, form feed, carriage return and space, and the
  sequences of U+0085, U+00A0, U+1680, U+2000 to U+200A, U+2028, U+2029, U+202F, U+205F
  and U+3000. \<^verbatim>\<open>space_prefix\<close> gives the width in bytes of the white-space code point a
  byte sequence starts with, 0 when it starts with none; \<^verbatim>\<open>space_suffix\<close> reads the
  reversed string, for the code point it ends with.
\<close>

definition ascii_space :: "char \<Rightarrow> bool" where
  "ascii_space c =
     (c = CHR 0x09 \<or> c = CHR 0x0A \<or> c = CHR 0x0B \<or> c = CHR 0x0C \<or> c = CHR 0x0D \<or> c = CHR 0x20)"

definition wide_space2 :: "char \<Rightarrow> char \<Rightarrow> bool" where
  "wide_space2 a b = (a = CHR 0xC2 \<and> (b = CHR 0x85 \<or> b = CHR 0xA0))"

definition wide_space3 :: "char \<Rightarrow> char \<Rightarrow> char \<Rightarrow> bool" where
  "wide_space3 a b c =
     ((a = CHR 0xE1 \<and> b = CHR 0x9A \<and> c = CHR 0x80)
      \<or> (a = CHR 0xE2 \<and> b = CHR 0x80 \<and>
          (((0x80 :: nat) \<le> of_char c \<and> (of_char c :: nat) \<le> 0x8A)
           \<or> c = CHR 0xA8 \<or> c = CHR 0xA9 \<or> c = CHR 0xAF))
      \<or> (a = CHR 0xE2 \<and> b = CHR 0x81 \<and> c = CHR 0x9F)
      \<or> (a = CHR 0xE3 \<and> b = CHR 0x80 \<and> c = CHR 0x80))"

fun space_prefix :: "string \<Rightarrow> nat" where
  "space_prefix [] = 0"
| "space_prefix [a] = (if ascii_space a then 1 else 0)"
| "space_prefix [a, b] = (if ascii_space a then 1 else if wide_space2 a b then 2 else 0)"
| "space_prefix (a # b # c # s) =
     (if ascii_space a then 1 else if wide_space2 a b then 2
      else if wide_space3 a b c then 3 else 0)"

fun space_suffix :: "string \<Rightarrow> nat" where
  "space_suffix [] = 0"
| "space_suffix [a] = (if ascii_space a then 1 else 0)"
| "space_suffix [b, a] = (if ascii_space b then 1 else if wide_space2 a b then 2 else 0)"
| "space_suffix (c # b # a # s) =
     (if ascii_space c then 1 else if wide_space2 b c then 2
      else if wide_space3 a b c then 3 else 0)"

text \<open>
  The two trimming loops, each with fuel: one code point goes per round, so the length
  of the string is fuel enough.
\<close>

fun drop_spaces :: "(string \<Rightarrow> nat) \<Rightarrow> nat \<Rightarrow> string \<Rightarrow> string" where
  "drop_spaces width 0 s = s"
| "drop_spaces width (Suc fuel) s =
     (if width s = 0 then s else drop_spaces width fuel (drop (width s) s))"

definition TrimSpace :: "string \<Rightarrow> string" where
  "TrimSpace s =
     (let l = drop_spaces space_prefix (length s) s
      in rev (drop_spaces space_suffix (length l) (rev l)))"

section \<open>One probe, and the verdict on one proxy\<close>

subsection \<open>\<^verbatim>\<open>deep.go\<close>\<close>

text \<open>
  \<^verbatim>\<open>checkWithClient\<close>: any error gives \<^verbatim>\<open>false\<close>; a response gives
  \<^verbatim>\<open>resp.StatusCode >= 200 && resp.StatusCode < 400\<close>. The body is closed unread.
\<close>

definition checkWithClient :: "'u world \<Rightarrow> 'u \<Rightarrow> string \<Rightarrow> bool" where
  "checkWithClient w client url =
     (case http_Do w client url of
        Inl err \<Rightarrow> False
      | Inr resp \<Rightarrow> StatusCode resp \<ge> 200 \<and> StatusCode resp < 400)"

definition targets :: "string list" where
  "targets = [''http://example.com'', ''http://httpbin.org/ip'', ''http://google.com'']"

text \<open>
  The loop of \<^verbatim>\<open>checkProxy\<close> over the targets, with its counter \<^verbatim>\<open>successCount\<close>. The
  pause of 100 ms after each probe changes no value.
\<close>

fun count_successes :: "(string \<Rightarrow> bool) \<Rightarrow> string list \<Rightarrow> nat \<Rightarrow> nat" where
  "count_successes probe [] successCount = successCount"
| "count_successes probe (target # rest) successCount =
     count_successes probe rest (if probe target then successCount + 1 else successCount)"

definition checkProxy :: "'u world \<Rightarrow> string \<Rightarrow> bool" where
  "checkProxy w proxy =
     (case url_Parse w (''http://'' @ proxy) of
        Inl err \<Rightarrow> False
      | Inr proxyURL \<Rightarrow> count_successes (checkWithClient w proxyURL) targets 0 \<ge> 2)"

subsection \<open>The worker program\<close>

text \<open>
  One round of the loop of \<^verbatim>\<open>checkProxyWorker\<close>, for the address taken from the channel:
  \<^verbatim>\<open>True\<close> when the round sends the address on \<^verbatim>\<open>liveProxiesChan\<close>. An address that does
  not parse and a request that fails take \<^verbatim>\<open>continue\<close>; a response counts when its status
  is 200.
\<close>

definition checkURL :: string where
  "checkURL = ''https://api.ipify.org''"

definition checkProxyWorker_round :: "'u world \<Rightarrow> string \<Rightarrow> bool" where
  "checkProxyWorker_round w proxyAddr =
     (case url_Parse w (''http://'' @ proxyAddr) of
        Inl err \<Rightarrow> False
      | Inr proxyURL \<Rightarrow>
          (case http_Do w proxyURL checkURL of
             Inl err \<Rightarrow> False
           | Inr resp \<Rightarrow> StatusCode resp = 200))"

subsection \<open>The \<^verbatim>\<open>ProxyChecker\<close> program\<close>

text \<open>
  \<^verbatim>\<open>testProxyConnection\<close> hands the transport a callback that parses
  \<^verbatim>\<open>"http://" + proxy.Full\<close> when the request is sent; when the address does not parse
  the request fails, and \<^verbatim>\<open>client.Do\<close> returns the error. Then: status other than 200,
  \<^verbatim>\<open>false\<close>; body unreadable, \<^verbatim>\<open>false\<close>; else whether the trimmed body is non-empty.
\<close>

definition client_Do_via :: "'u world \<Rightarrow> string \<Rightarrow> string \<Rightarrow> error + Response" where
  "client_Do_via w proxyURL testURL =
     (case url_Parse w proxyURL of
        Inl err \<Rightarrow> Inl err
      | Inr u \<Rightarrow> http_Do w u testURL)"

definition testProxyConnection :: "'u world \<Rightarrow> Proxy \<Rightarrow> string \<Rightarrow> bool" where
  "testProxyConnection w proxy testURL =
     (case client_Do_via w (''http://'' @ Full proxy) testURL of
        Inl err \<Rightarrow> False
      | Inr resp \<Rightarrow>
          if StatusCode resp \<noteq> 200 then False
          else (case Body resp of
                  Inl err \<Rightarrow> False
                | Inr body \<Rightarrow> length (TrimSpace body) > 0))"

definition testURLs :: "string list" where
  "testURLs = [''http://httpbin.org/ip'', ''http://icanhazip.com'']"

definition ProxyChecker_checkProxy :: "'u world \<Rightarrow> Proxy \<Rightarrow> bool" where
  "ProxyChecker_checkProxy w proxy =
     (count_successes (testProxyConnection w proxy) testURLs 0 \<ge> 1)"

subsection \<open>The quorum rule in the words of the specification\<close>

text \<open>
  The number of successful probes among the configured targets. A proxy whose address
  \<^verbatim>\<open>url.Parse\<close> refuses is sent no probe by \<^verbatim>\<open>deep.go\<close>, and has no successful one.
\<close>

definition successful_probes :: "'u world \<Rightarrow> string \<Rightarrow> nat" where
  "successful_probes w proxy =
     (case url_Parse w (''http://'' @ proxy) of
        Inl err \<Rightarrow> 0
      | Inr proxyURL \<Rightarrow> length (filter (checkWithClient w proxyURL) targets))"

definition ProxyChecker_successful_probes :: "'u world \<Rightarrow> Proxy \<Rightarrow> nat" where
  "ProxyChecker_successful_probes w proxy =
     length (filter (testProxyConnection w proxy) testURLs)"

subsection \<open>Example networks\<close>

text \<open>
  Networks for the concrete cases below. In each, every address parses (the parsed
  address is the string itself). \<^verbatim>\<open>world_status code body\<close> answers every probe with the
  given status and body; \<^verbatim>\<open>world_failing bad\<close> answers 200 with the body \<^verbatim>\<open>ok\<close> except
  through the targets listed in \<^verbatim>\<open>bad\<close>, where the request times out.
\<close>

definition world_status :: "int \<Rightarrow> string \<Rightarrow> string world" where
  "world_status code body =
     \<lparr>url_Parse = Inr, http_Do = (\<lambda>u t. Inr \<lparr>StatusCode = code, Body = Inr body\<rparr>)\<rparr>"

definition world_failing :: "string list \<Rightarrow> string world" where
  "world_failing bad =
     \<lparr>url_Parse = Inr,
      http_Do = (\<lambda>u t. if t \<in> set bad then Inl (Error ''timeout'')
                        else Inr \<lparr>StatusCode = 200, Body = Inr ''ok''\<rparr>)\<rparr>"

text \<open>
  \<^verbatim>\<open>world_only live\<close> answers 200 with the body \<^verbatim>\<open>ok\<close> through the proxies listed in
  \<^verbatim>\<open>live\<close> and refuses the connection through every other one.
\<close>

definition world_only :: "string list \<Rightarrow> string world" where
  "world_only live =
     \<lparr>url_Parse = Inr,
      http_Do = (\<lambda>u t. if u \<in> set (map (\<lambda>p. ''http://'' @ p) live)
                        then Inr \<lparr>StatusCode = 200, Body = Inr ''ok''\<rparr>
                        else Inl (Error ''connection refused''))\<rparr>"

section \<open>Harvesting in the \<^verbatim>\<open>ProxyChecker\<close> program\<close>

subsection \<open>Validation of the two parts of an address\<close>

text \<open>
  \<^verbatim>\<open>isValidPort\<close>: the length of the string must be 1 to 5, and the loop returns
  \<^verbatim>\<open>false\<close> at the first character outside \<^verbatim>\<open>'0'\<close> to \<^verbatim>\<open>'9'\<close>. The loop ranges over code
  points; a code point in that range is one byte, and every byte of a longer code point
  lies above \<^verbatim>\<open>'9'\<close>, so the test on bytes decides the same.
\<close>

fun isValidPort_loop :: "string \<Rightarrow> bool" where
  "isValidPort_loop [] = True"
| "isValidPort_loop (char # rest) =
     (if (of_char char :: nat) < of_char CHR ''0'' \<or> (of_char char :: nat) > of_char CHR ''9''
      then False else isValidPort_loop rest)"

definition isValidPort :: "string \<Rightarrow> bool" where
  "isValidPort port =
     (if length port = 0 \<or> length port > 5 then False else isValidPort_loop port)"

text \<open>
  \<^verbatim>\<open>isValidIP\<close> asks \<^verbatim>\<open>net.ParseIP\<close> of the standard library, a parameter here.
  \<^verbatim>\<open>net_ParseIP\<close> below is that function on dotted quads, the only strings the regular
  expression of \<^verbatim>\<open>parseProxies\<close> hands it: four decimal fields, each at most 255 and
  without a leading zero; the result is the four bytes.
\<close>

definition isValidIP :: "(string \<Rightarrow> 'ip option) \<Rightarrow> string \<Rightarrow> bool" where
  "isValidIP ParseIP ip = (ParseIP ip \<noteq> None)"

definition is_digit :: "char \<Rightarrow> bool" where
  "is_digit c = ((of_char CHR ''0'' :: nat) \<le> of_char c \<and> (of_char c :: nat) \<le> of_char CHR ''9'')"

fun decimal_from :: "nat \<Rightarrow> string \<Rightarrow> nat" where
  "decimal_from acc [] = acc"
| "decimal_from acc (c # cs) = decimal_from (10 * acc + (of_char c - of_char CHR ''0'')) cs"

definition decimal :: "string \<Rightarrow> nat" where
  "decimal s = decimal_from 0 s"

fun split_dots :: "string \<Rightarrow> string \<Rightarrow> string list" where
  "split_dots field [] = [field]"
| "split_dots field (c # cs) =
     (if c = CHR ''.'' then field # split_dots [] cs else split_dots (field @ [c]) cs)"

definition ipv4_field :: "string \<Rightarrow> nat option" where
  "ipv4_field f =
     (if f = [] \<or> \<not> list_all is_digit f then None
      else if length f > 1 \<and> hd f = CHR ''0'' then None
      else if length f > 3 \<or> decimal f > 255 then None
      else Some (decimal f))"

definition net_ParseIP :: "string \<Rightarrow> nat list option" where
  "net_ParseIP s =
     (case map ipv4_field (split_dots [] s) of
        [Some a, Some b, Some c, Some d] \<Rightarrow> Some [a, b, c, d]
      | _ \<Rightarrow> None)"

subsection \<open>The regular expression of \<^verbatim>\<open>parseProxies\<close>\<close>

text \<open>
  The expression is \<^verbatim>\<open>(\d{1,3}\.\d{1,3}\.\d{1,3}\.\d{1,3}):(\d{1,5})\<close>, and \<^verbatim>\<open>\d\<close> is an
  ASCII digit. \<^verbatim>\<open>take_digits n\<close> is the greedy \<^verbatim>\<open>\d{0,n}\<close>. A repetition that is
  followed by a literal dot or colon can only match all the digits in front of that
  literal (a shorter match is followed by a digit), so matching at a position needs no
  backtracking; the last repetition takes up to five digits. \<^verbatim>\<open>match_at\<close> is the match
  starting at the head of the string: the two groups and the text after the match.
\<close>

fun take_digits :: "nat \<Rightarrow> string \<Rightarrow> string \<times> string" where
  "take_digits 0 s = ([], s)"
| "take_digits (Suc n) [] = ([], [])"
| "take_digits (Suc n) (c # cs) =
     (if is_digit c then (case take_digits n cs of (d, r) \<Rightarrow> (c # d, r)) else ([], c # cs))"

definition digits1 :: "nat \<Rightarrow> string \<Rightarrow> (string \<times> string) option" where
  "digits1 n s = (case take_digits n s of (d, r) \<Rightarrow> if d = [] then None else Some (d, r))"

fun literal :: "char \<Rightarrow> string \<Rightarrow> string option" where
  "literal c [] = None"
| "literal c (x # xs) = (if x = c then Some xs else None)"

definition match_at :: "string \<Rightarrow> (string \<times> string \<times> string) option" where
  "match_at s = do {
     (a, s1) \<leftarrow> digits1 3 s;
     s2 \<leftarrow> literal CHR ''.'' s1;
     (b, s3) \<leftarrow> digits1 3 s2;
     s4 \<leftarrow> literal CHR ''.'' s3;
     (c, s5) \<leftarrow> digits1 3 s4;
     s6 \<leftarrow> literal CHR ''.'' s5;
     (d, s7) \<leftarrow> digits1 3 s6;
     s8 \<leftarrow> literal CHR '':'' s7;
     (port, rest) \<leftarrow> digits1 5 s8;
     Some (a @ ''.'' @ b @ ''.'' @ c @ ''.'' @ d, port, rest)
   }"

lemma take_digits_length: "take_digits n s = (d, r) \<Longrightarrow> length r \<le> length s"
proof (induction n s arbitrary: d r rule: take_digits.induct)
  case (3 n c cs)
  then show ?case by (auto split: if_splits prod.splits)
qed auto

lemma digits1_shorter: "digits1 n s = Some (d, r) \<Longrightarrow> length r \<le> length s"
  by (auto simp: digits1_def split: prod.splits if_splits dest: take_digits_length)

lemma literal_shorter: "literal c s = Some r \<Longrightarrow> length r < length s"
  by (cases s) (auto split: if_splits)

lemma match_at_steps:
  assumes "match_at s = Some (ip, port, rest)"
  obtains a s1 s2 b s3 s4 c s5 s6 d s7 s8 where
    "digits1 3 s = Some (a, s1)" "literal CHR ''.'' s1 = Some s2"
    "digits1 3 s2 = Some (b, s3)" "literal CHR ''.'' s3 = Some s4"
    "digits1 3 s4 = Some (c, s5)" "literal CHR ''.'' s5 = Some s6"
    "digits1 3 s6 = Some (d, s7)" "literal CHR '':'' s7 = Some s8"
    "digits1 5 s8 = Some (port, rest)" "ip = a @ ''.'' @ b @ ''.'' @ c @ ''.'' @ d"
  using assms unfolding match_at_def
  by (auto split: Option.bind_splits prod.splits)

lemma match_at_shorter:
  assumes "match_at s = Some (ip, port, rest)"
  shows "length rest < length s"
proof -
  from assms obtain a s1 s2 b s3 s4 c s5 s6 d s7 s8 where
    "digits1 3 s = Some (a, s1)" "literal CHR ''.'' s1 = Some s2"
    "digits1 3 s2 = Some (b, s3)" "literal CHR ''.'' s3 = Some s4"
    "digits1 3 s4 = Some (c, s5)" "literal CHR ''.'' s5 = Some s6"
    "digits1 3 s6 = Some (d, s7)" "literal CHR '':'' s7 = Some s8"
    "digits1 5 s8 = Some (port, rest)"
    by (rule match_at_steps)
  then have "length s1 \<le> length s" "length s2 < length s1" "length s3 \<le> length s2"
    "length s4 < length s3" "length s5 \<le> length s4" "length s6 < length s5"
    "length s7 \<le> length s6" "length s8 < length s7" "length rest \<le> length s8"
    by (auto dest: digits1_shorter literal_shorter)
  then show ?thesis by linarith
qed

text \<open>
  \<^verbatim>\<open>FindAllStringSubmatch(content, -1)\<close>: the successive matches from left to right, each
  search starting where the match before ended.
\<close>

function FindAllStringSubmatch :: "string \<Rightarrow> (string \<times> string) list" where
  "FindAllStringSubmatch [] = []"
| "FindAllStringSubmatch (c # cs) =
     (case match_at (c # cs) of
        Some (ip, port, rest) \<Rightarrow> (ip, port) # FindAllStringSubmatch rest
      | None \<Rightarrow> FindAllStringSubmatch cs)"
  by pat_completeness auto
termination
  by (relation "measure length") (auto dest: match_at_shorter)

text \<open>
  \<^verbatim>\<open>parseProxies\<close>: every match has its two groups (\<^verbatim>\<open>len(match) >= 3\<close> always holds); a
  match is kept when both validations pass.
\<close>

fun parseProxies_loop ::
  "(string \<Rightarrow> 'ip option) \<Rightarrow> (string \<times> string) list \<Rightarrow> Proxy list \<Rightarrow> Proxy list" where
  "parseProxies_loop ParseIP [] proxies = proxies"
| "parseProxies_loop ParseIP ((ip, port) # matches) proxies =
     (if isValidIP ParseIP ip \<and> isValidPort port
      then parseProxies_loop ParseIP matches
             (proxies @ [\<lparr>IP = ip, Port = port, Full = ip @ '':'' @ port\<rparr>])
      else parseProxies_loop ParseIP matches proxies)"

definition parseProxies :: "(string \<Rightarrow> 'ip option) \<Rightarrow> string \<Rightarrow> Proxy list" where
  "parseProxies ParseIP content =
     parseProxies_loop ParseIP (FindAllStringSubmatch content) []"

subsection \<open>Fetching a source with retries\<close>

text \<open>
  \<^verbatim>\<open>scrapeProxiesFromURL\<close> asks the same URL up to three times, so the answers of the
  source are a function of the attempt: \<^verbatim>\<open>get i\<close> is what \<^verbatim>\<open>client.Get(url)\<close> returns at
  attempt \<open>i\<close>, counted from 0, \<^verbatim>\<open>Inl\<close> when \<^verbatim>\<open>err != nil\<close>. The state of the loop is
  the two variables \<^verbatim>\<open>resp\<close> and \<^verbatim>\<open>err\<close> (\<^verbatim>\<open>None\<close> for \<^verbatim>\<open>nil\<close>), and what the loop has
  done so far: the number of requests sent and the pauses taken, in seconds.
\<close>

record fetch_state =
  resp :: "Response option"
  err :: "error option"
  requests :: nat
  slept :: "nat list"

definition fetch_start :: fetch_state where
  "fetch_start = \<lparr>resp = None, err = None, requests = 0, slept = []\<rparr>"

text \<open>
  One attempt: the assignment \<^verbatim>\<open>resp, err = client.Get(url)\<close>, and whether the attempt
  takes the \<^verbatim>\<open>break\<close>.
\<close>

definition client_Get :: "(nat \<Rightarrow> error + Response) \<Rightarrow> nat \<Rightarrow> fetch_state \<Rightarrow> fetch_state" where
  "client_Get get i st =
     (case get i of
        Inl e \<Rightarrow> st\<lparr>resp := None, err := Some e, requests := requests st + 1\<rparr>
      | Inr r \<Rightarrow> st\<lparr>resp := Some r, err := None, requests := requests st + 1\<rparr>)"

definition fetched_ok :: "fetch_state \<Rightarrow> bool" where
  "fetched_ok st =
     (err st = None \<and> (case resp st of None \<Rightarrow> False | Some r \<Rightarrow> StatusCode r = 200))"

function scrape_loop :: "(nat \<Rightarrow> error + Response) \<Rightarrow> nat \<Rightarrow> fetch_state \<Rightarrow> fetch_state" where
  "scrape_loop get i st =
     (if i < 3 then
        (let st' = client_Get get i st in
         if fetched_ok st' then st'
         else scrape_loop get (i + 1) (st'\<lparr>slept := slept st' @ [i + 1]\<rparr>))
      else st)"
  by pat_completeness auto
termination
  by (relation "measure (\<lambda>(get, i, st). 3 - i)") auto

declare scrape_loop.simps [simp del]

text \<open>
  A call either returns or panics: after the loop, \<^verbatim>\<open>defer resp.Body.Close()\<close> and
  \<^verbatim>\<open>resp.StatusCode\<close> dereference \<^verbatim>\<open>resp\<close>, which panics when both variables are
  \<^verbatim>\<open>nil\<close>.
\<close>

datatype 'a outcome = Panics | Returns 'a

definition scrapeProxiesFromURL_result ::
  "(string \<Rightarrow> 'ip option) \<Rightarrow> fetch_state \<Rightarrow> (error + Proxy list) outcome" where
  "scrapeProxiesFromURL_result ParseIP st =
     (case err st of
        Some e \<Rightarrow> Returns (Inl (Wrap ''failed to fetch after 3 attempts'' e))
      | None \<Rightarrow>
          (case resp st of
             None \<Rightarrow> Panics
           | Some r \<Rightarrow>
               if StatusCode r \<noteq> 200 then Returns (Inl (StatusError ''HTTP'' (StatusCode r)))
               else (case Body r of
                       Inl e \<Rightarrow> Returns (Inl (Wrap ''failed to read response'' e))
                     | Inr body \<Rightarrow> Returns (Inr (parseProxies ParseIP body)))))"

definition scrapeProxiesFromURL ::
  "(string \<Rightarrow> 'ip option) \<Rightarrow> (nat \<Rightarrow> error + Response) \<Rightarrow>
     (error + Proxy list) outcome \<times> fetch_state" where
  "scrapeProxiesFromURL ParseIP get =
     (let st = scrape_loop get 0 fetch_start
      in (scrapeProxiesFromURL_result ParseIP st, st))"

text \<open>
  The test of the loop at attempt \<open>i\<close>, \<^verbatim>\<open>err == nil && resp.StatusCode == 200\<close>: whether
  the attempt takes the \<^verbatim>\<open>break\<close>. It reads the error of \<^verbatim>\<open>client.Get\<close> and the status
  line only; the body is read by \<^verbatim>\<open>io.ReadAll\<close> once the loop has ended.
\<close>

definition takes_break :: "(nat \<Rightarrow> error + Response) \<Rightarrow> nat \<Rightarrow> bool" where
  "takes_break get i = fetched_ok (client_Get get i fetch_start)"

text \<open>
  Example sources. The first refuses the connection twice and then answers; the second
  gives the same answer at once; the third never answers; the connection of the fourth
  is reset while the body of its first answer, of status 200, is read, and it would
  answer well from the second request on.
\<close>

definition source_answer :: Response where
  "source_answer = \<lparr>StatusCode = 200, Body = Inr ''1.2.3.4:8080''\<rparr>"

definition source_third :: "nat \<Rightarrow> error + Response" where
  "source_third i = (if i < 2 then Inl (Error ''connection refused'') else Inr source_answer)"

definition source_first :: "nat \<Rightarrow> error + Response" where
  "source_first i = Inr source_answer"

definition source_down :: "nat \<Rightarrow> error + Response" where
  "source_down i = Inl (Error ''connection refused'')"

definition source_cut :: "nat \<Rightarrow> error + Response" where
  "source_cut i =
     (if i = 0 then Inr \<lparr>StatusCode = 200, Body = Inl (Error ''connection reset by peer'')\<rparr>
      else Inr source_answer)"

section \<open>Concurrent validation in \<^verbatim>\<open>deep.go\<close>\<close>

text \<open>
  \<^verbatim>\<open>checkProxiesConcurrently\<close> starts one goroutine per proxy and waits for all of them.
  A goroutine is at one of six places of its body:
  \<^item> \<^verbatim>\<open>G_NotStarted\<close>: the loop of the caller has not reached its \<^verbatim>\<open>go\<close> statement;
  \<^item> \<^verbatim>\<open>G_AtSem\<close>: at \<^verbatim>\<open>sem <- struct{}{}\<close>, which blocks while the channel is full;
  \<^item> \<^verbatim>\<open>G_Checking\<close>: inside \<^verbatim>\<open>checkProxy(p)\<close>, holding a slot of the channel;
  \<^item> \<^verbatim>\<open>G_Checked alive\<close>: \<^verbatim>\<open>checkProxy\<close> has returned, at \<^verbatim>\<open><-sem\<close>;
  \<^item> \<^verbatim>\<open>G_Reporting alive\<close>: the slot is given back, at \<^verbatim>\<open>if alive\<close> (the append under the
    mutex, or nothing);
  \<^item> \<^verbatim>\<open>G_Finished\<close>: \<^verbatim>\<open>wg.Done()\<close> has run.
  The state holds every goroutine with its argument \<^verbatim>\<open>p\<close>, the number of values in the
  channel \<^verbatim>\<open>sem\<close>, and the slice \<^verbatim>\<open>goodProxies\<close>.
\<close>

datatype goroutine =
  G_NotStarted | G_AtSem | G_Checking | G_Checked bool | G_Reporting bool | G_Finished

record sem_state =
  gs :: "(string \<times> goroutine) list"
  sem :: nat
  goodProxies :: "string list"

definition sem_init :: "string list \<Rightarrow> sem_state" where
  "sem_init proxies = \<lparr>gs = map (\<lambda>p. (p, G_NotStarted)) proxies, sem = 0, goodProxies = []\<rparr>"

text \<open>
  The scheduler picks the next step: the caller starts the next goroutine (in the order
  of the slice), or goroutine \<open>i\<close> takes its next step. A step that is not enabled
  gives \<^verbatim>\<open>None\<close>: a send on the full channel, a receive from the empty one, a step of a
  goroutine that is elsewhere. \<open>W\<close> is the capacity of the channel,
  \<^verbatim>\<open>maxConcurrentChecks\<close>.
\<close>

datatype sem_action = Go nat | Acquire nat | Check nat | Release nat | Report nat

definition place :: "sem_state \<Rightarrow> nat \<Rightarrow> goroutine option" where
  "place s i = (if i < length (gs s) then Some (snd (gs s ! i)) else None)"

definition move :: "sem_state \<Rightarrow> nat \<Rightarrow> goroutine \<Rightarrow> sem_state" where
  "move s i g = s\<lparr>gs := (gs s)[i := (fst (gs s ! i), g)]\<rparr>"

fun sem_step :: "nat \<Rightarrow> 'u world \<Rightarrow> sem_action \<Rightarrow> sem_state \<Rightarrow> sem_state option" where
  "sem_step W w (Go i) s =
     (if place s i = Some G_NotStarted \<and> list_all (\<lambda>(p, g). g \<noteq> G_NotStarted) (take i (gs s))
      then Some (move s i G_AtSem) else None)"
| "sem_step W w (Acquire i) s =
     (if place s i = Some G_AtSem \<and> sem s < W
      then Some ((move s i G_Checking)\<lparr>sem := sem s + 1\<rparr>) else None)"
| "sem_step W w (Check i) s =
     (if place s i = Some G_Checking
      then Some (move s i (G_Checked (checkProxy w (fst (gs s ! i))))) else None)"
| "sem_step W w (Release i) s =
     (case place s i of
        Some (G_Checked alive) \<Rightarrow>
          if sem s > 0 then Some ((move s i (G_Reporting alive))\<lparr>sem := sem s - 1\<rparr>) else None
      | _ \<Rightarrow> None)"
| "sem_step W w (Report i) s =
     (case place s i of
        Some (G_Reporting alive) \<Rightarrow>
          Some ((move s i G_Finished)
                 \<lparr>goodProxies :=
                    (if alive then goodProxies s @ [fst (gs s ! i)] else goodProxies s)\<rparr>)
      | _ \<Rightarrow> None)"

fun sem_run :: "nat \<Rightarrow> 'u world \<Rightarrow> sem_action list \<Rightarrow> sem_state \<Rightarrow> sem_state option" where
  "sem_run W w [] s = Some s"
| "sem_run W w (a # sched) s =
     (case sem_step W w a s of None \<Rightarrow> None | Some s' \<Rightarrow> sem_run W w sched s')"

text \<open>
  \<^verbatim>\<open>wg.Wait()\<close> returns when every goroutine has finished; then the function returns
  \<^verbatim>\<open>goodProxies\<close>. Under a schedule that is a complete run of the program this is the
  value returned; any other schedule gives \<^verbatim>\<open>None\<close>.
\<close>

definition sem_final :: "sem_state \<Rightarrow> bool" where
  "sem_final s = list_all (\<lambda>(p, g). g = G_Finished) (gs s)"

definition checkProxiesConcurrently ::
  "nat \<Rightarrow> 'u world \<Rightarrow> sem_action list \<Rightarrow> string list \<Rightarrow> string list option" where
  "checkProxiesConcurrently W w sched proxies =
     (case sem_run W w sched (sem_init proxies) of
        None \<Rightarrow> None
      | Some s \<Rightarrow> if sem_final s then Some (goodProxies s) else None)"

definition maxConcurrentChecks :: nat where
  "maxConcurrentChecks = 200"

text \<open>How many goroutines are inside \<^verbatim>\<open>checkProxy\<close>.\<close>

definition checks_running :: "sem_state \<Rightarrow> nat" where
  "checks_running s = length (filter (\<lambda>(p, g). g = G_Checking) (gs s))"

text \<open>
  The schedule that runs the goroutines one after the other, each to its end.
\<close>

definition one_by_one :: "nat \<Rightarrow> sem_action list" where
  "one_by_one n = concat (map (\<lambda>i. [Go i, Acquire i, Check i, Release i, Report i]) [0..<n])"

subsection \<open>Quantities of a state\<close>

text \<open>
  Per goroutine: whether it holds a slot of the channel, how many steps it has taken,
  whether the verdict it carries is the one \<^verbatim>\<open>checkProxy\<close> gives for its argument, and
  what it has appended to \<^verbatim>\<open>goodProxies\<close>.
\<close>

fun holds_slot :: "goroutine \<Rightarrow> nat" where
  "holds_slot G_Checking = 1"
| "holds_slot (G_Checked alive) = 1"
| "holds_slot g = 0"

fun steps_taken :: "goroutine \<Rightarrow> nat" where
  "steps_taken G_NotStarted = 0"
| "steps_taken G_AtSem = 1"
| "steps_taken G_Checking = 2"
| "steps_taken (G_Checked alive) = 3"
| "steps_taken (G_Reporting alive) = 4"
| "steps_taken G_Finished = 5"

fun verdict_of :: "'u world \<Rightarrow> string \<times> goroutine \<Rightarrow> bool" where
  "verdict_of w (p, G_Checked alive) = (alive = checkProxy w p)"
| "verdict_of w (p, G_Reporting alive) = (alive = checkProxy w p)"
| "verdict_of w (p, g) = True"

fun appended :: "'u world \<Rightarrow> string \<times> goroutine \<Rightarrow> string multiset" where
  "appended w (p, G_Finished) = (if checkProxy w p then {#p#} else {#})"
| "appended w (p, g) = {#}"

text \<open>What holds of every state a run reaches.\<close>

definition sem_inv :: "nat \<Rightarrow> 'u world \<Rightarrow> string list \<Rightarrow> sem_state \<Rightarrow> bool" where
  "sem_inv W w proxies s =
     (map fst (gs s) = proxies
      \<and> sem s = sum_list (map (\<lambda>x. holds_slot (snd x)) (gs s))
      \<and> sem s \<le> W
      \<and> list_all (verdict_of w) (gs s)
      \<and> mset (goodProxies s) = sum_list (map (appended w) (gs s)))"

subsection \<open>The order of the appends\<close>

text \<open>
  The goroutines that pass \<^verbatim>\<open>if alive\<close> in a schedule, in the order in which they do, and
  the proxies appended to \<^verbatim>\<open>goodProxies\<close> in that order: those of these goroutines whose
  check succeeds.
\<close>

fun reports :: "sem_action list \<Rightarrow> nat list" where
  "reports [] = []"
| "reports (Report i # sched) = i # reports sched"
| "reports (a # sched) = reports sched"

definition append_order :: "'u world \<Rightarrow> string list \<Rightarrow> sem_action list \<Rightarrow> string list" where
  "append_order w proxies sched =
     filter (checkProxy w) (map (\<lambda>i. proxies ! i) (reports sched))"

section \<open>Concurrent validation in the \<^verbatim>\<open>ProxyChecker\<close> program\<close>

text \<open>
  \<^verbatim>\<open>validateProxies\<close> makes the channel \<^verbatim>\<open>jobs\<close> with room for every proxy, starts
  \<^verbatim>\<open>maxWorkers\<close> goroutines running \<^verbatim>\<open>worker\<close>, sends every proxy, closes the channel and
  waits. A worker is at one of four places:
  \<^item> \<^verbatim>\<open>W_Receiving\<close>: at the head of \<^verbatim>\<open>for proxy := range jobs\<close>;
  \<^item> \<^verbatim>\<open>W_Checking proxy\<close>: inside \<^verbatim>\<open>pc.checkProxy(proxy)\<close>;
  \<^item> \<^verbatim>\<open>W_Appending proxy valid\<close>: the check has returned, at the append under the mutex;
  \<^item> \<^verbatim>\<open>W_Exited\<close>: the loop has ended and \<^verbatim>\<open>wg.Done()\<close> has run.
  The state holds the workers started so far, the proxies the caller has still to send,
  the buffer of the channel and whether it is closed, and the two slices of the checker.
\<close>

datatype worker = W_Receiving | W_Checking Proxy | W_Appending Proxy bool | W_Exited

record pool_state =
  workers :: "worker list"
  unsent :: "Proxy list"
  jobs :: "Proxy list"
  closed :: bool
  validProxies :: "Proxy list"
  invalidProxies :: "Proxy list"

definition pool_init :: "Proxy list \<Rightarrow> pool_state" where
  "pool_init proxies =
     \<lparr>workers = [], unsent = proxies, jobs = [], closed = False,
      validProxies = [], invalidProxies = []\<rparr>"

text \<open>
  The steps of the caller are \<^verbatim>\<open>StartWorker\<close> (while \<^verbatim>\<open>i < pc.maxWorkers\<close>), then
  \<^verbatim>\<open>SendJob\<close> (which blocks while the buffer is full), then \<^verbatim>\<open>CloseJobs\<close>. Worker \<open>i\<close>
  receives a job, or leaves its loop when the channel is closed and empty, runs the
  check, appends.
\<close>

datatype pool_action =
  StartWorker | SendJob | CloseJobs | Receive nat | Exit nat | Test nat | Append nat

definition worker_at :: "pool_state \<Rightarrow> nat \<Rightarrow> worker option" where
  "worker_at s i = (if i < length (workers s) then Some (workers s ! i) else None)"

definition starting :: "int \<Rightarrow> pool_state \<Rightarrow> bool" where
  "starting maxWorkers s = (int (length (workers s)) < maxWorkers)"

fun pool_step ::
  "int \<Rightarrow> nat \<Rightarrow> 'u world \<Rightarrow> pool_action \<Rightarrow> pool_state \<Rightarrow> pool_state option" where
  "pool_step maxWorkers cap w StartWorker s =
     (if starting maxWorkers s then Some (s\<lparr>workers := workers s @ [W_Receiving]\<rparr>) else None)"
| "pool_step maxWorkers cap w SendJob s =
     (if starting maxWorkers s then None
      else (case unsent s of
              [] \<Rightarrow> None
            | proxy # rest \<Rightarrow>
                if length (jobs s) < cap
                then Some (s\<lparr>unsent := rest, jobs := jobs s @ [proxy]\<rparr>) else None))"
| "pool_step maxWorkers cap w CloseJobs s =
     (if \<not> starting maxWorkers s \<and> unsent s = [] \<and> \<not> closed s
      then Some (s\<lparr>closed := True\<rparr>) else None)"
| "pool_step maxWorkers cap w (Receive i) s =
     (if worker_at s i = Some W_Receiving
      then (case jobs s of
              [] \<Rightarrow> None
            | proxy # rest \<Rightarrow>
                Some (s\<lparr>workers := (workers s)[i := W_Checking proxy], jobs := rest\<rparr>))
      else None)"
| "pool_step maxWorkers cap w (Exit i) s =
     (if worker_at s i = Some W_Receiving \<and> jobs s = [] \<and> closed s
      then Some (s\<lparr>workers := (workers s)[i := W_Exited]\<rparr>) else None)"
| "pool_step maxWorkers cap w (Test i) s =
     (case worker_at s i of
        Some (W_Checking proxy) \<Rightarrow>
          Some (s\<lparr>workers :=
                    (workers s)[i := W_Appending proxy (ProxyChecker_checkProxy w proxy)]\<rparr>)
      | _ \<Rightarrow> None)"
| "pool_step maxWorkers cap w (Append i) s =
     (case worker_at s i of
        Some (W_Appending proxy valid) \<Rightarrow>
          Some (if valid
                then s\<lparr>workers := (workers s)[i := W_Receiving],
                       validProxies := validProxies s @ [proxy]\<rparr>
                else s\<lparr>workers := (workers s)[i := W_Receiving],
                       invalidProxies := invalidProxies s @ [proxy]\<rparr>)
      | _ \<Rightarrow> None)"

fun pool_run ::
  "int \<Rightarrow> nat \<Rightarrow> 'u world \<Rightarrow> pool_action list \<Rightarrow> pool_state \<Rightarrow> pool_state option" where
  "pool_run maxWorkers cap w [] s = Some s"
| "pool_run maxWorkers cap w (a # sched) s =
     (case pool_step maxWorkers cap w a s of
        None \<Rightarrow> None
      | Some s' \<Rightarrow> pool_run maxWorkers cap w sched s')"

text \<open>
  \<^verbatim>\<open>pc.wg.Wait()\<close> comes after \<^verbatim>\<open>close(jobs)\<close> and returns when every worker that was
  started has left its loop. Under a schedule that is a complete run, \<^verbatim>\<open>validateProxies\<close>
  leaves the two slices in the checker; any other schedule gives \<^verbatim>\<open>None\<close>.
\<close>

definition pool_final :: "pool_state \<Rightarrow> bool" where
  "pool_final s = (closed s \<and> list_all (\<lambda>x. x = W_Exited) (workers s))"

definition validateProxies ::
  "int \<Rightarrow> 'u world \<Rightarrow> pool_action list \<Rightarrow> Proxy list \<Rightarrow> (Proxy list \<times> Proxy list) option" where
  "validateProxies maxWorkers w sched proxies =
     (case pool_run maxWorkers (length proxies) w sched (pool_init proxies) of
        None \<Rightarrow> None
      | Some s \<Rightarrow> if pool_final s then Some (validProxies s, invalidProxies s) else None)"

text \<open>How many workers are inside \<^verbatim>\<open>checkProxy\<close>.\<close>

fun is_checking :: "worker \<Rightarrow> bool" where
  "is_checking (W_Checking proxy) = True"
| "is_checking x = False"

definition tests_running :: "pool_state \<Rightarrow> nat" where
  "tests_running s = length (filter is_checking (workers s))"

subsection \<open>Quantities of a state\<close>

text \<open>
  Per worker: the proxy it has taken from the channel and not yet appended, whether the
  verdict it carries is the one of \<^verbatim>\<open>checkProxy\<close>, and the steps it has still to take
  when no further job arrives.
\<close>

fun in_hand :: "worker \<Rightarrow> Proxy multiset" where
  "in_hand (W_Checking proxy) = {#proxy#}"
| "in_hand (W_Appending proxy valid) = {#proxy#}"
| "in_hand x = {#}"

fun worker_verdict :: "'u world \<Rightarrow> worker \<Rightarrow> bool" where
  "worker_verdict w (W_Appending proxy valid) = (valid = ProxyChecker_checkProxy w proxy)"
| "worker_verdict w x = True"

fun steps_left :: "worker \<Rightarrow> nat" where
  "steps_left W_Receiving = 1"
| "steps_left (W_Checking proxy) = 3"
| "steps_left (W_Appending proxy valid) = 2"
| "steps_left W_Exited = 0"

definition pool_potential :: "int \<Rightarrow> pool_state \<Rightarrow> nat" where
  "pool_potential maxWorkers s =
     2 * (nat maxWorkers - length (workers s)) + 4 * length (unsent s) + 3 * length (jobs s)
     + (if closed s then 0 else 1) + sum_list (map steps_left (workers s))"

text \<open>What holds of every state a run reaches.\<close>

definition pool_inv :: "int \<Rightarrow> 'u world \<Rightarrow> Proxy list \<Rightarrow> pool_state \<Rightarrow> bool" where
  "pool_inv maxWorkers w proxies s =
     (mset (unsent s) + mset (jobs s) + sum_list (map in_hand (workers s))
        + mset (validProxies s) + mset (invalidProxies s) = mset proxies
      \<and> list_all (worker_verdict w) (workers s)
      \<and> list_all (ProxyChecker_checkProxy w) (validProxies s)
      \<and> list_all (\<lambda>p. \<not> ProxyChecker_checkProxy w p) (invalidProxies s)
      \<and> (closed s \<longrightarrow> unsent s = [] \<and> \<not> starting maxWorkers s)
      \<and> (W_Exited \<in> set (workers s) \<longrightarrow> closed s \<and> jobs s = [])
      \<and> int (length (workers s)) \<le> max 0 maxWorkers)"

text \<open>The schedule that starts the workers and lets the first one do all the work.\<close>

definition first_worker_only :: "nat \<Rightarrow> nat \<Rightarrow> pool_action list" where
  "first_worker_only m n =
     replicate m StartWorker @ replicate n SendJob @ [CloseJobs]
     @ concat (replicate n [Receive 0, Test 0, Append 0]) @ map Exit [0..<m]"

subsection \<open>The order of the appends\<close>

text \<open>
  What a run appends to the two slices, in the order of the appends: the proxy in the
  hands of the worker at each \<^verbatim>\<open>Append\<close> step.
\<close>

fun appending :: "pool_state \<Rightarrow> pool_action \<Rightarrow> Proxy list" where
  "appending s (Append i) =
     (case worker_at s i of Some (W_Appending proxy valid) \<Rightarrow> [proxy] | _ \<Rightarrow> [])"
| "appending s a = []"

fun appends_from ::
  "int \<Rightarrow> nat \<Rightarrow> 'u world \<Rightarrow> pool_action list \<Rightarrow> pool_state \<Rightarrow> Proxy list" where
  "appends_from maxWorkers cap w [] s = []"
| "appends_from maxWorkers cap w (a # sched) s =
     (case pool_step maxWorkers cap w a s of
        None \<Rightarrow> []
      | Some s' \<Rightarrow> appending s a @ appends_from maxWorkers cap w sched s')"

definition pool_appends ::
  "int \<Rightarrow> 'u world \<Rightarrow> pool_action list \<Rightarrow> Proxy list \<Rightarrow> Proxy list" where
  "pool_appends maxWorkers w sched proxies =
     appends_from maxWorkers (length proxies) w sched (pool_init proxies)"

section \<open>The pipeline of the worker program\<close>

text \<open>
  \<^verbatim>\<open>main\<close> of the worker program starts the collector, then \<^verbatim>\<open>workerCount\<close> goroutines
  running \<^verbatim>\<open>checkProxyWorker\<close>, then one goroutine running \<^verbatim>\<open>scrapeProxies\<close> per source;
  it closes \<^verbatim>\<open>scrapedProxiesChan\<close> when the scrapers are done and \<^verbatim>\<open>liveProxiesChan\<close> when
  the checkers are done. A checker is at the head of its loop, inside the request to
  \<^verbatim>\<open>checkURL\<close>, at the send on \<^verbatim>\<open>liveProxiesChan\<close>, or gone. A scraper is the list of the
  lines its scanner has still to yield (none when the request for the source fails);
  what the scanners yield is a parameter, one list per source.
\<close>

datatype checker = C_Receiving | C_Probing string | C_Sending string | C_Exited

record pipe_state =
  checkers :: "checker list"
  scrapers :: "string list list"
  scrapedProxies :: "string list"
  scraped_closed :: bool
  liveProxies :: "string list"
  live_closed :: bool
  uniqueProxies :: "string \<rightharpoonup> bool"
  written :: "string list"

definition pipe_init :: pipe_state where
  "pipe_init =
     \<lparr>checkers = [], scrapers = [], scrapedProxies = [], scraped_closed = False,
      liveProxies = [], live_closed = False, uniqueProxies = Map.empty, written = []\<rparr>"

datatype pipe_action =
  StartChecker | StartScraper | Scrape nat | CloseScraped
  | Take nat | Leave nat | Probe nat | Deliver nat | CloseLive | Collect

definition checker_at :: "pipe_state \<Rightarrow> nat \<Rightarrow> checker option" where
  "checker_at s i = (if i < length (checkers s) then Some (checkers s ! i) else None)"

definition scraper_at :: "pipe_state \<Rightarrow> nat \<Rightarrow> string list option" where
  "scraper_at s k = (if k < length (scrapers s) then Some (scrapers s ! k) else None)"

text \<open>
  \<open>N\<close> is \<^verbatim>\<open>workerCount\<close>: the number of checkers, the capacity of \<^verbatim>\<open>liveProxiesChan\<close>,
  and a tenth of the capacity of \<^verbatim>\<open>scrapedProxiesChan\<close>.
\<close>

fun pipe_step ::
  "nat \<Rightarrow> 'u world \<Rightarrow> string list list \<Rightarrow> pipe_action \<Rightarrow> pipe_state \<Rightarrow> pipe_state option" where
  "pipe_step N w scanned StartChecker s =
     (if length (checkers s) < N
      then Some (s\<lparr>checkers := checkers s @ [C_Receiving]\<rparr>) else None)"
| "pipe_step N w scanned StartScraper s =
     (if \<not> length (checkers s) < N \<and> length (scrapers s) < length scanned
      then Some (s\<lparr>scrapers := scrapers s @ [scanned ! length (scrapers s)]\<rparr>) else None)"
| "pipe_step N w scanned (Scrape k) s =
     (case scraper_at s k of
        Some (line # rest) \<Rightarrow>
          if TrimSpace line = [] then Some (s\<lparr>scrapers := (scrapers s)[k := rest]\<rparr>)
          else if length (scrapedProxies s) < N * 10
          then Some (s\<lparr>scrapers := (scrapers s)[k := rest],
                       scrapedProxies := scrapedProxies s @ [TrimSpace line]\<rparr>)
          else None
      | _ \<Rightarrow> None)"
| "pipe_step N w scanned CloseScraped s =
     (if \<not> length (checkers s) < N \<and> \<not> length (scrapers s) < length scanned
         \<and> list_all (\<lambda>lines. lines = []) (scrapers s) \<and> \<not> scraped_closed s
      then Some (s\<lparr>scraped_closed := True\<rparr>) else None)"
| "pipe_step N w scanned (Take i) s =
     (if checker_at s i = Some C_Receiving
      then (case scrapedProxies s of
              [] \<Rightarrow> None
            | proxyAddr # rest \<Rightarrow>
                Some (s\<lparr>checkers := (checkers s)[i := C_Probing proxyAddr],
                        scrapedProxies := rest\<rparr>))
      else None)"
| "pipe_step N w scanned (Leave i) s =
     (if checker_at s i = Some C_Receiving \<and> scrapedProxies s = [] \<and> scraped_closed s
      then Some (s\<lparr>checkers := (checkers s)[i := C_Exited]\<rparr>) else None)"
| "pipe_step N w scanned (Probe i) s =
     (case checker_at s i of
        Some (C_Probing proxyAddr) \<Rightarrow>
          Some (s\<lparr>checkers :=
                    (checkers s)[i := (if checkProxyWorker_round w proxyAddr
                                       then C_Sending proxyAddr else C_Receiving)]\<rparr>)
      | _ \<Rightarrow> None)"
| "pipe_step N w scanned (Deliver i) s =
     (case checker_at s i of
        Some (C_Sending proxyAddr) \<Rightarrow>
          if length (liveProxies s) < N
          then Some (s\<lparr>checkers := (checkers s)[i := C_Receiving],
                       liveProxies := liveProxies s @ [proxyAddr]\<rparr>)
          else None
      | _ \<Rightarrow> None)"
| "pipe_step N w scanned CloseLive s =
     (if scraped_closed s \<and> list_all (\<lambda>c. c = C_Exited) (checkers s) \<and> \<not> live_closed s
      then Some (s\<lparr>live_closed := True\<rparr>) else None)"
| "pipe_step N w scanned Collect s =
     (case liveProxies s of
        [] \<Rightarrow> None
      | proxy # rest \<Rightarrow>
          (case uniqueProxies s proxy of
             None \<Rightarrow> Some (s\<lparr>liveProxies := rest,
                              uniqueProxies := (uniqueProxies s)(proxy \<mapsto> True),
                              written := written s @ [proxy]\<rparr>)
           | Some b \<Rightarrow> Some (s\<lparr>liveProxies := rest\<rparr>)))"

fun pipe_run ::
  "nat \<Rightarrow> 'u world \<Rightarrow> string list list \<Rightarrow> pipe_action list \<Rightarrow> pipe_state
     \<Rightarrow> pipe_state option" where
  "pipe_run N w scanned [] s = Some s"
| "pipe_run N w scanned (a # sched) s =
     (case pipe_step N w scanned a s of
        None \<Rightarrow> None
      | Some s' \<Rightarrow> pipe_run N w scanned sched s')"

definition workerCount :: nat where
  "workerCount = 150"

text \<open>How many checkers are inside a request.\<close>

fun is_probing :: "checker \<Rightarrow> bool" where
  "is_probing (C_Probing proxyAddr) = True"
| "is_probing c = False"

definition probes_running :: "pipe_state \<Rightarrow> nat" where
  "probes_running s = length (filter is_probing (checkers s))"

section \<open>The programs from harvest to file\<close>

subsection \<open>Files and the log\<close>

text \<open>
  The file system is a map from file names to contents. Writing is done by the
  operating system and may fail, so it is a parameter:
  \<^item> \<^verbatim>\<open>os_WriteFile name content\<close> is \<^verbatim>\<open>os.WriteFile\<close>;
  \<^item> \<^verbatim>\<open>os_Create name\<close> is \<^verbatim>\<open>os.Create\<close>, which gives an empty file or an error;
  \<^item> \<^verbatim>\<open>file_Write name content\<close> is what a \<^verbatim>\<open>bufio.Writer\<close> on the created file has
    done when it has been given the content and is flushed; its error is the one
    \<^verbatim>\<open>WriteString\<close> returns.
  Each returns the file system it leaves. A log is the list of the messages printed, in
  order; a message is given by its text or format string, the values that fill the
  format are left out, and so are the pictographs that open the messages of the
  \<^verbatim>\<open>ProxyChecker\<close> program.
\<close>

type_synonym fs = "string \<rightharpoonup> string"

record disk =
  os_WriteFile :: "string \<Rightarrow> string \<Rightarrow> fs \<Rightarrow> fs \<times> error option"
  os_Create :: "string \<Rightarrow> fs \<Rightarrow> fs \<times> error option"
  file_Write :: "string \<Rightarrow> string \<Rightarrow> fs \<Rightarrow> fs \<times> error option"

text \<open>What a run of a program leaves: its exit status, its log, the files.\<close>

record run =
  exit_status :: int
  logged :: "string list"
  files :: fs

text \<open>A disk on which every write succeeds.\<close>

definition disk_ok :: disk where
  "disk_ok =
     \<lparr>os_WriteFile = (\<lambda>name content fs. (fs(name \<mapsto> content), None)),
      os_Create = (\<lambda>name fs. (fs(name \<mapsto> []), None)),
      file_Write = (\<lambda>name content fs. (fs(name \<mapsto> content), None))\<rparr>"

subsection \<open>\<^verbatim>\<open>deep.go\<close>\<close>

text \<open>
  \<^verbatim>\<open>scrapeAllProxies\<close> starts a goroutine per source. Each calls \<^verbatim>\<open>scrapeProxies\<close>, which
  fetches the page and hands it to the parser of the source (both outside this model:
  \<^verbatim>\<open>scrape url\<close> is what the call returns); on an error the goroutine logs and returns,
  otherwise it appends its proxies under the mutex. \<^verbatim>\<open>order\<close> lists the sources in the
  order in which their goroutines get there. The result is deduplicated.
\<close>

definition proxySources :: "string list" where
  "proxySources =
     [''https://free-proxy-list.net/'', ''https://www.sslproxies.org/'',
      ''https://www.us-proxy.org/'', ''https://proxyscrape.com/free-proxy-list'',
      ''https://proxylist.geonode.com/api/proxy-list?limit=500&page=1&sort_by=lastChecked&sort_type=desc'']"

fun scrapeAllProxies_loop ::
  "(string \<Rightarrow> error + string list) \<Rightarrow> string list \<Rightarrow> string list \<times> string list
     \<Rightarrow> string list \<times> string list" where
  "scrapeAllProxies_loop scrape [] (allProxies, lg) = (allProxies, lg)"
| "scrapeAllProxies_loop scrape (url # rest) (allProxies, lg) =
     (case scrape url of
        Inl e \<Rightarrow> scrapeAllProxies_loop scrape rest (allProxies, lg @ [''Gagal scrape %s: %v''])
      | Inr proxies \<Rightarrow>
          scrapeAllProxies_loop scrape rest
            (allProxies @ proxies, lg @ [''Scrape %s: %d proxy'']))"

definition scrapeAllProxies ::
  "(string \<Rightarrow> error + string list) \<Rightarrow> string list \<Rightarrow> string list \<times> string list" where
  "scrapeAllProxies scrape order =
     (case scrapeAllProxies_loop scrape order ([], []) of
        (allProxies, lg) \<Rightarrow> (deduplicateProxies allProxies, lg))"

text \<open>\<^verbatim>\<open>strings.Join\<close>.\<close>

fun Join :: "string list \<Rightarrow> string \<Rightarrow> string" where
  "Join [] sep = []"
| "Join [x] sep = x"
| "Join (x # y # rest) sep = x @ sep @ Join (y # rest) sep"

definition goodProxiesFile :: string where
  "goodProxiesFile = ''good_proxies.txt''"

text \<open>\<^verbatim>\<open>saveProxiesToFile\<close> returns nothing; it leaves the files and its lines of the log.\<close>

definition saveProxiesToFile ::
  "disk \<Rightarrow> string list \<Rightarrow> string \<Rightarrow> fs \<Rightarrow> fs \<times> string list" where
  "saveProxiesToFile d proxies filename fs =
     (if length proxies = 0 then (fs, [''Tidak ada proxy yang valid untuk disimpan''])
      else (case os_WriteFile d filename (Join proxies ''\<newline>'') fs of
              (fs', Some e) \<Rightarrow> (fs', [''Gagal menyimpan file: %v''])
            | (fs', None) \<Rightarrow> (fs', [])))"

text \<open>
  \<^verbatim>\<open>main\<close>. It returns in both branches, so the exit status of the process is 0. The
  schedule is the one of the validation, behind a semaphore of \<^verbatim>\<open>maxConcurrentChecks\<close>
  slots; it is not read when nothing was harvested.
\<close>

definition main ::
  "'u world \<Rightarrow> disk \<Rightarrow> (string \<Rightarrow> error + string list) \<Rightarrow> string list
     \<Rightarrow> sem_action list \<Rightarrow> fs \<Rightarrow> run option" where
  "main w d scrape order sched fs =
     (case scrapeAllProxies scrape order of (allProxies, lg) \<Rightarrow>
        let lg1 = [''Memulai proses scraping proxy...''] @ lg
                  @ [''Berhasil mengumpulkan %d proxy'']
        in if length allProxies = 0
           then Some \<lparr>exit_status = 0,
                      logged = lg1 @ [''Tidak ada proxy yang ditemukan, keluar...''],
                      files = fs\<rparr>
           else (case checkProxiesConcurrently maxConcurrentChecks w sched allProxies of
                   None \<Rightarrow> None
                 | Some good \<Rightarrow>
                     (case saveProxiesToFile d good goodProxiesFile fs of
                        (fs', lg2) \<Rightarrow>
                          Some \<lparr>exit_status = 0,
                                 logged = lg1 @ [''Memulai pengecekan proxy...'',
                                                 ''Selesai! Proxy baik: %d, Proxy mati: %d'']
                                          @ lg2 @ [''Proxy yang baik disimpan di %s''],
                                 files = fs'\<rparr>)))"

subsection \<open>The \<^verbatim>\<open>ProxyChecker\<close> program\<close>

record ProxySource =
  Name :: string
  URL :: string

definition ProxyChecker_proxySources :: "ProxySource list" where
  "ProxyChecker_proxySources =
     [\<lparr>Name = ''ProxyList-1'',
       URL = ''https://raw.githubusercontent.com/TheSpeedX/PROXY-List/master/http.txt''\<rparr>,
      \<lparr>Name = ''ProxyList-2'',
       URL = ''https://raw.githubusercontent.com/monosans/proxy-list/main/proxies/http.txt''\<rparr>,
      \<lparr>Name = ''ProxyList-3'',
       URL = ''https://raw.githubusercontent.com/clarketm/proxy-list/master/proxy-list-raw.txt''\<rparr>,
      \<lparr>Name = ''ProxyList-4'',
       URL = ''https://raw.githubusercontent.com/sunny9577/proxy-scraper/master/proxies.txt''\<rparr>,
      \<lparr>Name = ''ProxyList-5'',
       URL = ''https://raw.githubusercontent.com/ShiftyTR/Proxy-List/master/http.txt''\<rparr>,
      \<lparr>Name = ''ProxyList-6'',
       URL = ''https://raw.githubusercontent.com/roosterkid/openproxylist/main/HTTPS_RAW.txt''\<rparr>,
      \<lparr>Name = ''ProxyList-7'',
       URL = ''https://raw.githubusercontent.com/mmpx12/proxy-list/master/http.txt''\<rparr>,
      \<lparr>Name = ''ProxyList-8'',
       URL = ''https://raw.githubusercontent.com/proxy4parsing/proxy-list/main/http.txt''\<rparr>]"

text \<open>
  \<^verbatim>\<open>scrapeAllProxies\<close>: as in \<^verbatim>\<open>deep.go\<close>, with \<^verbatim>\<open>scrapeProxiesFromURL\<close> for the fetch;
  \<^verbatim>\<open>get url\<close> gives the answers of the source to the successive requests. A panic of a
  goroutine ends the process.
\<close>

fun ProxyChecker_scrapeAllProxies_loop ::
  "(string \<Rightarrow> 'ip option) \<Rightarrow> (string \<Rightarrow> nat \<Rightarrow> error + Response) \<Rightarrow> ProxySource list
     \<Rightarrow> Proxy list \<times> string list \<Rightarrow> (Proxy list \<times> string list) outcome" where
  "ProxyChecker_scrapeAllProxies_loop ParseIP get [] (allProxies, lg) =
     Returns (allProxies, lg)"
| "ProxyChecker_scrapeAllProxies_loop ParseIP get (src # rest) (allProxies, lg) =
     (case fst (scrapeProxiesFromURL ParseIP (get (URL src))) of
        Panics \<Rightarrow> Panics
      | Returns (Inl e) \<Rightarrow>
          ProxyChecker_scrapeAllProxies_loop ParseIP get rest
            (allProxies, lg @ [''Scraping dari %s...'', ''Error scraping dari %s: %v''])
      | Returns (Inr proxies) \<Rightarrow>
          ProxyChecker_scrapeAllProxies_loop ParseIP get rest
            (allProxies @ proxies,
             lg @ [''Scraping dari %s...'', ''Berhasil scrape %d proxy dari %s'']))"

definition ProxyChecker_scrapeAllProxies ::
  "(string \<Rightarrow> 'ip option) \<Rightarrow> (string \<Rightarrow> nat \<Rightarrow> error + Response) \<Rightarrow> ProxySource list
     \<Rightarrow> (Proxy list \<times> string list) outcome" where
  "ProxyChecker_scrapeAllProxies ParseIP get order =
     (case ProxyChecker_scrapeAllProxies_loop ParseIP get order ([], []) of
        Panics \<Rightarrow> Panics
      | Returns (allProxies, lg) \<Rightarrow>
          Returns (removeDuplicateProxies allProxies,
                   lg @ [''Setelah menghapus duplikat: %d proxy'']))"

text \<open>
  \<^verbatim>\<open>saveProxiesToFile\<close> returns its error: the wrapped error of \<^verbatim>\<open>os.Create\<close>, or the
  wrapped error of a write; the content is one line per proxy.
\<close>

definition ProxyChecker_saveProxiesToFile ::
  "disk \<Rightarrow> Proxy list \<Rightarrow> string \<Rightarrow> fs \<Rightarrow> fs \<times> error option" where
  "ProxyChecker_saveProxiesToFile d proxies filename fs =
     (case os_Create d filename fs of
        (fs1, Some e) \<Rightarrow> (fs1, Some (Wrap ''failed to create file'' e))
      | (fs1, None) \<Rightarrow>
          (case file_Write d filename (concat (map (\<lambda>proxy. Full proxy @ ''\<newline>'') proxies)) fs1 of
             (fs2, Some e) \<Rightarrow> (fs2, Some (Wrap ''failed to write to file'' e))
           | (fs2, None) \<Rightarrow> (fs2, None)))"

text \<open>
  \<^verbatim>\<open>main\<close>. The checker is made by \<^verbatim>\<open>NewProxyChecker(10*time.Second, 100)\<close>, with 100
  workers. \<^verbatim>\<open>log.Fatal\<close> prints and exits with status 1; an uncaught panic exits with
  status 2; a return from \<^verbatim>\<open>main\<close> gives status 0. The run also shows the two slices
  of the checker.
\<close>

record checker_run = run +
  left_valid :: "Proxy list"
  left_invalid :: "Proxy list"

definition save_log :: "error option \<Rightarrow> string \<Rightarrow> string list" where
  "save_log failure msg = (case failure of None \<Rightarrow> [] | Some e \<Rightarrow> [msg])"

definition checker_maxWorkers :: int where
  "checker_maxWorkers = 100"

definition ProxyChecker_main ::
  "'u world \<Rightarrow> disk \<Rightarrow> (string \<Rightarrow> 'ip option) \<Rightarrow> (string \<Rightarrow> nat \<Rightarrow> error + Response)
     \<Rightarrow> ProxySource list \<Rightarrow> pool_action list \<Rightarrow> fs \<Rightarrow> checker_run option" where
  "ProxyChecker_main w d ParseIP get order sched fs =
     (case ProxyChecker_scrapeAllProxies ParseIP get order of
        Panics \<Rightarrow>
          Some \<lparr>exit_status = 2, logged = [''Memulai Proxy Scraper dan Validator''],
                 files = fs, left_valid = [], left_invalid = []\<rparr>
      | Returns (allProxies, lg) \<Rightarrow>
          let lg1 = [''Memulai Proxy Scraper dan Validator''] @ lg
          in if length allProxies = 0
             then Some \<lparr>exit_status = 1,
                        logged = lg1 @ [''Tidak ada proxy yang berhasil di-scrape''],
                        files = fs, left_valid = [], left_invalid = []\<rparr>
             else (case validateProxies checker_maxWorkers w sched allProxies of
                     None \<Rightarrow> None
                   | Some (vs, ivs) \<Rightarrow>
                       (case ProxyChecker_saveProxiesToFile d vs
                               ''claude_valid_proxies.txt'' fs of
                          (fs1, err1) \<Rightarrow>
                            (case ProxyChecker_saveProxiesToFile d ivs
                                    ''claude_invalid_proxies.txt'' fs1 of
                               (fs2, err2) \<Rightarrow>
                                 Some \<lparr>exit_status = 0,
                                        logged = lg1
                                          @ [''Total proxy yang ditemukan: %d'',
                                             ''Memulai pengecekan proxy...'']
                                          @ save_log err1 ''Error menyimpan proxy valid: %v''
                                          @ save_log err2 ''Error menyimpan proxy invalid: %v''
                                          @ [''RINGKASAN HASIL''],
                                        files = fs2,
                                        left_valid = vs, left_invalid = ivs\<rparr>))))"

subsection \<open>The harvest in the words of the specification\<close>

text \<open>
  The candidates harvested across the sources: what the sources that answer have
  yielded, in the order in which they were collected.
\<close>

definition harvested :: "(string \<Rightarrow> error + string list) \<Rightarrow> string list \<Rightarrow> string list" where
  "harvested scrape order =
     concat (map (\<lambda>url. case scrape url of Inl e \<Rightarrow> [] | Inr proxies \<Rightarrow> proxies) order)"

definition ProxyChecker_harvested ::
  "(string \<Rightarrow> 'ip option) \<Rightarrow> (string \<Rightarrow> nat \<Rightarrow> error + Response) \<Rightarrow> ProxySource list
     \<Rightarrow> Proxy list" where
  "ProxyChecker_harvested ParseIP get order =
     concat (map (\<lambda>src. case fst (scrapeProxiesFromURL ParseIP (get (URL src))) of
                          Returns (Inr proxies) \<Rightarrow> proxies
                        | _ \<Rightarrow> []) order)"

chapter \<open>Properties\<close>

section \<open>Deduplication\<close>

subsection \<open>The loops compute the first occurrences\<close>

lemma deduplicateProxies_loop_firsts:
  "dom unique = set result \<Longrightarrow>
   deduplicateProxies_loop unique result xs = result @ firsts_from (\<lambda>a. a) (set result) xs"
proof (induction xs arbitrary: unique result)
  case Nil
  then show ?case by simp
next
  case (Cons x xs)
  show ?case
  proof (cases "unique x")
    case None
    then have "x \<notin> dom unique" by (simp add: domIff)
    with Cons.prems have notin: "x \<notin> set result" by simp
    have "dom (unique(x \<mapsto> True)) = set (result @ [x])"
      using Cons.prems by simp
    then have "deduplicateProxies_loop (unique(x \<mapsto> True)) (result @ [x]) xs =
        (result @ [x]) @ firsts_from (\<lambda>a. a) (set (result @ [x])) xs"
      by (rule Cons.IH)
    with None notin show ?thesis by simp
  next
    case (Some b)
    then have "x \<in> dom unique" by (simp add: domIff)
    with Cons.prems have "x \<in> set result" by simp
    with Cons.IH [OF Cons.prems] Some show ?thesis by simp
  qed
qed

lemma removeDuplicateProxies_loop_firsts:
  "{k. seen_lookup seen k} = Full ` set unique \<Longrightarrow>
   removeDuplicateProxies_loop seen unique ps = unique @ firsts_from Full (Full ` set unique) ps"
proof (induction ps arbitrary: seen unique)
  case Nil
  then show ?case by simp
next
  case (Cons p ps)
  show ?case
  proof (cases "seen_lookup seen (Full p)")
    case True
    with Cons.prems have "Full p \<in> Full ` set unique" by blast
    with Cons.IH [OF Cons.prems] True show ?thesis by simp
  next
    case False
    with Cons.prems have notin: "Full p \<notin> Full ` set unique" by blast
    have "{k. seen_lookup (seen(Full p \<mapsto> True)) k} = Full ` set (unique @ [p])"
      using Cons.prems by (auto simp: seen_lookup_def)
    then have "removeDuplicateProxies_loop (seen(Full p \<mapsto> True)) (unique @ [p]) ps =
        (unique @ [p]) @ firsts_from Full (Full ` set (unique @ [p])) ps"
      by (rule Cons.IH)
    with False notin show ?thesis by simp
  qed
qed

lemma deduplicateProxies_firsts: "deduplicateProxies xs = firsts_from (\<lambda>a. a) {} xs"
  using deduplicateProxies_loop_firsts [of Map.empty "[]" xs]
  by (simp add: deduplicateProxies_def)

lemma removeDuplicateProxies_firsts: "removeDuplicateProxies ps = firsts_from Full {} ps"
  using removeDuplicateProxies_loop_firsts [of Map.empty "[]" ps]
  by (simp add: removeDuplicateProxies_def seen_lookup_def)

subsection \<open>Properties of the first occurrences\<close>

lemma set_firsts_from: "key ` set (firsts_from key S xs) = key ` set xs - S"
  by (induction xs arbitrary: S) auto

lemma firsts_from_subset: "set (firsts_from key S xs) \<subseteq> set xs"
  by (induction xs arbitrary: S) auto

lemma distinct_firsts_from: "distinct (map key (firsts_from key S xs))"
proof (induction xs arbitrary: S)
  case Nil
  show ?case by simp
next
  case (Cons x xs)
  have "key x \<notin> key ` set (firsts_from key (insert (key x) S) xs)"
    by (simp add: set_firsts_from)
  with Cons.IH show ?case by simp
qed

lemma firsts_from_distinct_id:
  "distinct (map key xs) \<Longrightarrow> key ` set xs \<inter> S = {} \<Longrightarrow> firsts_from key S xs = xs"
proof (induction xs arbitrary: S)
  case Nil
  show ?case by simp
next
  case (Cons x xs)
  from Cons.prems have "key ` set xs \<inter> insert (key x) S = {}" by auto
  with Cons.IH [of "insert (key x) S"] Cons.prems show ?case by auto
qed

lemma firsts_from_idem: "firsts_from key {} (firsts_from key {} xs) = firsts_from key {} xs"
  by (rule firsts_from_distinct_id) (simp_all add: distinct_firsts_from)

lemma firsts_from_positions:
  "firsts_from key S xs =
     map (\<lambda>i. xs ! i)
       (filter (\<lambda>i. key (xs ! i) \<notin> S \<union> key ` set (take i xs)) [0..<length xs])"
proof (induction xs arbitrary: S)
  case Nil
  show ?case by simp
next
  case (Cons x xs)
  have upt: "[0..<length (x # xs)] = 0 # map Suc [0..<length xs]"
    by (simp add: upt_conv_Cons map_Suc_upt del: upt_Suc)
  have flt: "T = insert (key x) S \<Longrightarrow>
     filter (\<lambda>i. key ((x # xs) ! Suc i) \<notin> S \<union> key ` set (take (Suc i) (x # xs)))
       [0..<length xs]
     = filter (\<lambda>i. key (xs ! i) \<notin> T \<union> key ` set (take i xs)) [0..<length xs]" for T
    by (rule filter_cong) auto
  show ?case
  proof (cases "key x \<in> S")
    case True
    then show ?thesis
      unfolding upt list.map filter.simps filter_map comp_def
      using flt [of S] by (simp add: Cons.IH insert_absorb del: upt_Suc)
  next
    case False
    then show ?thesis
      unfolding upt list.map filter.simps filter_map comp_def
      using flt [of "insert (key x) S"] by (simp add: Cons.IH del: upt_Suc)
  qed
qed

lemma firsts_from_first_occurrences: "firsts_from key {} xs = first_occurrences key xs"
  by (simp add: firsts_from_positions first_occurrences_def)

subsection \<open>Each address is admitted once\<close>

text \<open>
  Claim C3. For every input list, repeats included, deduplication admits each address
  exactly once: the output has no repeated address, every address of the input is an
  address of the output (and nothing else is), and deduplicating a deduplicated list
  changes nothing. It holds for \<^verbatim>\<open>deduplicateProxies\<close> of \<^verbatim>\<open>deep.go\<close>, on address strings,
  and for \<^verbatim>\<open>removeDuplicateProxies\<close> of the \<^verbatim>\<open>ProxyChecker\<close> program, where the address
  of a \<^verbatim>\<open>Proxy\<close> is its \<^verbatim>\<open>Full\<close> field.
\<close>

theorem dedup_admits_each_address_once:
  "distinct (deduplicateProxies xs)
   \<and> set (deduplicateProxies xs) = set xs
   \<and> deduplicateProxies (deduplicateProxies xs) = deduplicateProxies xs
   \<and> distinct (map Full (removeDuplicateProxies ps))
   \<and> Full ` set (removeDuplicateProxies ps) = Full ` set ps
   \<and> set (removeDuplicateProxies ps) \<subseteq> set ps
   \<and> removeDuplicateProxies (removeDuplicateProxies ps) = removeDuplicateProxies ps"
proof -
  have d1: "distinct (deduplicateProxies xs)"
    using distinct_firsts_from [of "\<lambda>a. a" "{}" xs]
    by (simp add: deduplicateProxies_firsts)
  have s1: "set (deduplicateProxies xs) = set xs"
    using set_firsts_from [of "\<lambda>a. a" "{}" xs]
    by (simp add: deduplicateProxies_firsts)
  have i1: "deduplicateProxies (deduplicateProxies xs) = deduplicateProxies xs"
    by (simp add: deduplicateProxies_firsts firsts_from_idem)
  have d2: "distinct (map Full (removeDuplicateProxies ps))"
    by (simp add: removeDuplicateProxies_firsts distinct_firsts_from)
  have s2: "Full ` set (removeDuplicateProxies ps) = Full ` set ps"
    by (simp add: removeDuplicateProxies_firsts set_firsts_from)
  have s3: "set (removeDuplicateProxies ps) \<subseteq> set ps"
    by (simp add: removeDuplicateProxies_firsts firsts_from_subset)
  have i2: "removeDuplicateProxies (removeDuplicateProxies ps) = removeDuplicateProxies ps"
    by (simp add: removeDuplicateProxies_firsts firsts_from_idem)
  from d1 s1 i1 d2 s2 s3 i2 show ?thesis by blast
qed

text \<open>
  The theorem at the two-source scenario of the specification: each source yields
  \<^verbatim>\<open>1.2.3.4:8080\<close> twice and \<^verbatim>\<open>5.6.7.8:3128\<close> once; two addresses are admitted.
\<close>

theorem dedup_admits_each_address_once_witness:
  "deduplicateProxies
     [''1.2.3.4:8080'', ''1.2.3.4:8080'', ''5.6.7.8:3128'',
      ''1.2.3.4:8080'', ''1.2.3.4:8080'', ''5.6.7.8:3128'']
     = [''1.2.3.4:8080'', ''5.6.7.8:3128'']
   \<and> distinct (deduplicateProxies
     [''1.2.3.4:8080'', ''1.2.3.4:8080'', ''5.6.7.8:3128'',
      ''1.2.3.4:8080'', ''1.2.3.4:8080'', ''5.6.7.8:3128''])
   \<and> deduplicateProxies (deduplicateProxies
     [''1.2.3.4:8080'', ''1.2.3.4:8080'', ''5.6.7.8:3128'',
      ''1.2.3.4:8080'', ''1.2.3.4:8080'', ''5.6.7.8:3128''])
     = [''1.2.3.4:8080'', ''5.6.7.8:3128'']"
proof -
  have e: "deduplicateProxies
     [''1.2.3.4:8080'', ''1.2.3.4:8080'', ''5.6.7.8:3128'',
      ''1.2.3.4:8080'', ''1.2.3.4:8080'', ''5.6.7.8:3128'']
     = [''1.2.3.4:8080'', ''5.6.7.8:3128'']"
    by (simp add: deduplicateProxies_def)
  from dedup_admits_each_address_once
    [of "[''1.2.3.4:8080'', ''1.2.3.4:8080'', ''5.6.7.8:3128'',
          ''1.2.3.4:8080'', ''1.2.3.4:8080'', ''5.6.7.8:3128'']" "[]"]
  show ?thesis unfolding e by simp
qed

section \<open>Probes and the quorum\<close>

lemma count_successes_filter:
  "count_successes probe ts n = n + length (filter probe ts)"
  by (induction ts arbitrary: n) simp_all

lemma length_filter_count_True:
  "length (filter P xs) = count (mset (map P xs)) True"
  by (induction xs) simp_all

lemma checkProxy_successful_probes:
  "checkProxy w proxy = (2 \<le> successful_probes w proxy)"
  by (simp add: checkProxy_def successful_probes_def count_successes_filter split: sum.split)

lemma ProxyChecker_checkProxy_successful_probes:
  "ProxyChecker_checkProxy w p = (1 \<le> ProxyChecker_successful_probes w p)"
  by (simp add: ProxyChecker_checkProxy_def ProxyChecker_successful_probes_def
      count_successes_filter)

text \<open>
  Claim C1. A proxy is classified live exactly when the number of successful probes
  among the configured targets reaches the threshold: two of the three targets in
  \<^verbatim>\<open>deep.go\<close>, one of the two test URLs in the \<^verbatim>\<open>ProxyChecker\<close> program. In \<^verbatim>\<open>deep.go\<close>,
  the outcomes success, success, failure (in any order) give live, and success,
  failure, failure give dead.
\<close>

theorem quorum_rule:
  "checkProxy w proxy = (2 \<le> successful_probes w proxy)
   \<and> length targets = 3
   \<and> ProxyChecker_checkProxy w p = (1 \<le> ProxyChecker_successful_probes w p)
   \<and> length testURLs = 2
   \<and> (url_Parse w (''http://'' @ proxy) = Inr u
        \<and> mset (map (checkWithClient w u) targets) = {#True, True, False#}
       \<longrightarrow> checkProxy w proxy)
   \<and> (url_Parse w (''http://'' @ proxy) = Inr u
        \<and> mset (map (checkWithClient w u) targets) = {#True, False, False#}
       \<longrightarrow> \<not> checkProxy w proxy)"
proof -
  have live: "checkProxy w proxy"
    if "url_Parse w (''http://'' @ proxy) = Inr u"
      and "mset (map (checkWithClient w u) targets) = {#True, True, False#}"
  proof -
    from that have "successful_probes w proxy = 2"
      by (simp add: successful_probes_def length_filter_count_True)
    then show ?thesis by (simp add: checkProxy_successful_probes)
  qed
  have dead: "\<not> checkProxy w proxy"
    if "url_Parse w (''http://'' @ proxy) = Inr u"
      and "mset (map (checkWithClient w u) targets) = {#True, False, False#}"
  proof -
    from that have "successful_probes w proxy = 1"
      by (simp add: successful_probes_def length_filter_count_True)
    then show ?thesis by (simp add: checkProxy_successful_probes)
  qed
  have k: "length targets = 3" "length testURLs = 2"
    by (simp_all add: targets_def testURLs_def)
  from live dead k show ?thesis
    by (simp add: checkProxy_successful_probes ProxyChecker_checkProxy_successful_probes)
qed

text \<open>
  The rule on two networks: one where only \<^verbatim>\<open>google.com\<close> times out, one where
  \<^verbatim>\<open>httpbin.org\<close> and \<^verbatim>\<open>google.com\<close> do.
\<close>

theorem quorum_rule_witness:
  "(url_Parse (world_failing [''http://google.com'']) (''http://'' @ ''1.2.3.4:8080'')
      = Inr ''http://1.2.3.4:8080''
    \<and> map (checkWithClient (world_failing [''http://google.com'']) ''http://1.2.3.4:8080'')
        targets = [True, True, False]
    \<and> checkProxy (world_failing [''http://google.com'']) ''1.2.3.4:8080'')
   \<and> (url_Parse (world_failing [''http://httpbin.org/ip'', ''http://google.com''])
        (''http://'' @ ''1.2.3.4:8080'') = Inr ''http://1.2.3.4:8080''
    \<and> map (checkWithClient (world_failing [''http://httpbin.org/ip'', ''http://google.com''])
         ''http://1.2.3.4:8080'') targets = [True, False, False]
    \<and> \<not> checkProxy (world_failing [''http://httpbin.org/ip'', ''http://google.com''])
         ''1.2.3.4:8080'')"
proof -
  let ?w1 = "world_failing [''http://google.com'']"
  let ?w2 = "world_failing [''http://httpbin.org/ip'', ''http://google.com'']"
  have p1: "url_Parse ?w1 (''http://'' @ ''1.2.3.4:8080'') = Inr ''http://1.2.3.4:8080''"
    by (simp add: world_failing_def)
  have p2: "url_Parse ?w2 (''http://'' @ ''1.2.3.4:8080'') = Inr ''http://1.2.3.4:8080''"
    by (simp add: world_failing_def)
  have m1: "map (checkWithClient ?w1 ''http://1.2.3.4:8080'') targets = [True, True, False]"
    by (simp add: world_failing_def checkWithClient_def targets_def)
  have m2: "map (checkWithClient ?w2 ''http://1.2.3.4:8080'') targets = [True, False, False]"
    by (simp add: world_failing_def checkWithClient_def targets_def)
  have q1: "mset (map (checkWithClient ?w1 ''http://1.2.3.4:8080'') targets)
      = {#True, True, False#}"
    unfolding m1 by simp
  have q2: "mset (map (checkWithClient ?w2 ''http://1.2.3.4:8080'') targets)
      = {#True, False, False#}"
    unfolding m2 by simp
  have "checkProxy ?w1 ''1.2.3.4:8080''"
    using quorum_rule [of ?w1 "''1.2.3.4:8080''" "\<lparr>IP = [], Port = [], Full = []\<rparr>"
        "''http://1.2.3.4:8080''"] p1 q1
    by blast
  moreover have "\<not> checkProxy ?w2 ''1.2.3.4:8080''"
    using quorum_rule [of ?w2 "''1.2.3.4:8080''" "\<lparr>IP = [], Port = [], Full = []\<rparr>"
        "''http://1.2.3.4:8080''"] p2 q2
    by blast
  ultimately show ?thesis using p1 p2 m1 m2 by blast
qed

subsection \<open>When one probe succeeds\<close>

lemma TrimSpace_Nil: "TrimSpace [] = []"
  by (simp add: TrimSpace_def)

lemma testProxyConnection_iff:
  "testProxyConnection w p t =
     (\<exists>u resp body. url_Parse w (''http://'' @ Full p) = Inr u \<and> http_Do w u t = Inr resp
        \<and> StatusCode resp = 200 \<and> Body resp = Inr body \<and> TrimSpace body \<noteq> [])"
  by (auto simp: testProxyConnection_def client_Do_via_def split: sum.splits)

text \<open>
  Claim C8, as amended. A probe counts as a success exactly when it returns a response
  and
  \<^item> in \<^verbatim>\<open>deep.go\<close>, the status is at least 200 and below 400;
  \<^item> in the worker program, the address parses and the status is 200;
  \<^item> in the \<^verbatim>\<open>ProxyChecker\<close> program, the status is 200 and the body is read without
    error and is non-empty after \<^verbatim>\<open>strings.TrimSpace\<close> (so non-empty).
  In all three, a time-out or connection error and every status of 400 or above make
  the probe a failure.
\<close>

theorem probe_success_rule:
  "checkWithClient w u t =
     (\<exists>resp. http_Do w u t = Inr resp \<and> 200 \<le> StatusCode resp \<and> StatusCode resp < 400)
   \<and> checkProxyWorker_round w a =
     (\<exists>v resp. url_Parse w (''http://'' @ a) = Inr v \<and> http_Do w v checkURL = Inr resp
        \<and> StatusCode resp = 200)
   \<and> testProxyConnection w p t =
     (\<exists>v resp body. url_Parse w (''http://'' @ Full p) = Inr v \<and> http_Do w v t = Inr resp
        \<and> StatusCode resp = 200 \<and> Body resp = Inr body \<and> TrimSpace body \<noteq> []
        \<and> body \<noteq> [])
   \<and> (http_Do w u t = Inl e \<longrightarrow> \<not> checkWithClient w u t)
   \<and> (http_Do w u t = Inr r \<and> 400 \<le> StatusCode r \<longrightarrow> \<not> checkWithClient w u t)
   \<and> (url_Parse w (''http://'' @ a) = Inr u \<and> http_Do w u checkURL = Inl e
        \<longrightarrow> \<not> checkProxyWorker_round w a)
   \<and> (url_Parse w (''http://'' @ a) = Inr u \<and> http_Do w u checkURL = Inr r
        \<and> 400 \<le> StatusCode r \<longrightarrow> \<not> checkProxyWorker_round w a)
   \<and> (url_Parse w (''http://'' @ Full p) = Inr u \<and> http_Do w u t = Inl e
        \<longrightarrow> \<not> testProxyConnection w p t)
   \<and> (url_Parse w (''http://'' @ Full p) = Inr u \<and> http_Do w u t = Inr r
        \<and> 400 \<le> StatusCode r \<longrightarrow> \<not> testProxyConnection w p t)"
proof -
  have a: "checkWithClient w u t =
     (\<exists>resp. http_Do w u t = Inr resp \<and> 200 \<le> StatusCode resp \<and> StatusCode resp < 400)"
    by (auto simp: checkWithClient_def split: sum.splits)
  have b: "checkProxyWorker_round w a =
     (\<exists>v resp. url_Parse w (''http://'' @ a) = Inr v \<and> http_Do w v checkURL = Inr resp
        \<and> StatusCode resp = 200)"
    by (auto simp: checkProxyWorker_round_def split: sum.splits)
  have c: "testProxyConnection w p t =
     (\<exists>v resp body. url_Parse w (''http://'' @ Full p) = Inr v \<and> http_Do w v t = Inr resp
        \<and> StatusCode resp = 200 \<and> Body resp = Inr body \<and> TrimSpace body \<noteq> []
        \<and> body \<noteq> [])"
    unfolding testProxyConnection_iff using TrimSpace_Nil by blast
  have d: "http_Do w u t = Inl e \<longrightarrow> \<not> checkWithClient w u t"
    "http_Do w u t = Inr r \<and> 400 \<le> StatusCode r \<longrightarrow> \<not> checkWithClient w u t"
    by (auto simp: checkWithClient_def)
  have e: "url_Parse w (''http://'' @ a) = Inr u \<and> http_Do w u checkURL = Inl e
        \<longrightarrow> \<not> checkProxyWorker_round w a"
    "url_Parse w (''http://'' @ a) = Inr u \<and> http_Do w u checkURL = Inr r
        \<and> 400 \<le> StatusCode r \<longrightarrow> \<not> checkProxyWorker_round w a"
    by (auto simp: checkProxyWorker_round_def)
  have f: "url_Parse w (''http://'' @ Full p) = Inr u \<and> http_Do w u t = Inl e
        \<longrightarrow> \<not> testProxyConnection w p t"
    "url_Parse w (''http://'' @ Full p) = Inr u \<and> http_Do w u t = Inr r
        \<and> 400 \<le> StatusCode r \<longrightarrow> \<not> testProxyConnection w p t"
    by (auto simp: testProxyConnection_def client_Do_via_def)
  from a b c d e f show ?thesis by blast
qed

text \<open>
  The rule on three networks: one that times out on every target, one that answers 404,
  one that answers 200 with a body.
\<close>

theorem probe_success_rule_witness:
  "\<not> checkWithClient (world_failing [''http://example.com'', checkURL])
       ''http://1.2.3.4:8080'' ''http://example.com''
   \<and> \<not> checkProxyWorker_round (world_failing [''http://example.com'', checkURL])
       ''1.2.3.4:8080''
   \<and> \<not> testProxyConnection (world_failing [''http://example.com'', checkURL])
       \<lparr>IP = ''1.2.3.4'', Port = ''8080'', Full = ''1.2.3.4:8080''\<rparr> ''http://example.com''
   \<and> \<not> checkWithClient (world_status 404 ''not found'')
       ''http://1.2.3.4:8080'' ''http://example.com''
   \<and> \<not> checkProxyWorker_round (world_status 404 ''not found'') ''1.2.3.4:8080''
   \<and> \<not> testProxyConnection (world_status 404 ''not found'')
       \<lparr>IP = ''1.2.3.4'', Port = ''8080'', Full = ''1.2.3.4:8080''\<rparr> ''http://example.com''
   \<and> checkWithClient (world_status 200 ''ok'') ''http://1.2.3.4:8080'' ''http://example.com''
   \<and> checkProxyWorker_round (world_status 200 ''ok'') ''1.2.3.4:8080''
   \<and> testProxyConnection (world_status 200 ''ok'')
       \<lparr>IP = ''1.2.3.4'', Port = ''8080'', Full = ''1.2.3.4:8080''\<rparr> ''http://example.com''"
proof -
  define wf where "wf = world_failing [''http://example.com'', checkURL]"
  define w4 where "w4 = world_status 404 ''not found''"
  define w2 where "w2 = world_status 200 ''ok''"
  define p where "p = \<lparr>IP = ''1.2.3.4'', Port = ''8080'', Full = ''1.2.3.4:8080''\<rparr>"
  define u where "u = ''http://1.2.3.4:8080''"
  define t where "t = ''http://example.com''"
  define a where "a = ''1.2.3.4:8080''"
  define r4 where "r4 = \<lparr>StatusCode = 404, Body = Inr ''not found''\<rparr>"
  define r2 where "r2 = \<lparr>StatusCode = 200, Body = Inr ''ok''\<rparr>"
  define e where "e = Error ''timeout''"
  have parse_f: "url_Parse wf (''http://'' @ a) = Inr u" "url_Parse wf (''http://'' @ Full p) = Inr u"
    by (simp_all add: wf_def world_failing_def a_def u_def p_def)
  have parse_4: "url_Parse w4 (''http://'' @ a) = Inr u" "url_Parse w4 (''http://'' @ Full p) = Inr u"
    by (simp_all add: w4_def world_status_def a_def u_def p_def)
  have parse_2: "url_Parse w2 (''http://'' @ a) = Inr u" "url_Parse w2 (''http://'' @ Full p) = Inr u"
    by (simp_all add: w2_def world_status_def a_def u_def p_def)
  have err: "http_Do wf u t = Inl e" "http_Do wf u checkURL = Inl e"
    by (simp_all add: wf_def world_failing_def t_def e_def)
  have r404: "http_Do w4 u t = Inr r4" "http_Do w4 u checkURL = Inr r4" "400 \<le> StatusCode r4"
    by (simp_all add: w4_def world_status_def r4_def)
  have r200: "http_Do w2 u t = Inr r2" "http_Do w2 u checkURL = Inr r2" "StatusCode r2 = 200"
    "Body r2 = Inr ''ok''"
    by (simp_all add: w2_def world_status_def r2_def)
  have trim: "TrimSpace ''ok'' \<noteq> []" "''ok'' \<noteq> []"
    by (simp_all add: TrimSpace_def ascii_space_def wide_space2_def wide_space3_def)
  note rule_f = probe_success_rule [of wf u t a p e r4]
  note rule_4 = probe_success_rule [of w4 u t a p e r4]
  note rule_2 = probe_success_rule [of w2 u t a p e r2]
  have f1: "\<not> checkWithClient wf u t" using rule_f err by blast
  have f2: "\<not> checkProxyWorker_round wf a" using rule_f parse_f err by blast
  have f3: "\<not> testProxyConnection wf p t" using rule_f parse_f err by blast
  have g1: "\<not> checkWithClient w4 u t" using rule_4 r404 by blast
  have g2: "\<not> checkProxyWorker_round w4 a" using rule_4 parse_4 r404 by blast
  have g3: "\<not> testProxyConnection w4 p t" using rule_4 parse_4 r404 by blast
  have "200 \<le> StatusCode r2 \<and> StatusCode r2 < 400" using r200 by simp
  then have h1: "checkWithClient w2 u t" using rule_2 r200 by blast
  have h2: "checkProxyWorker_round w2 a" using rule_2 parse_2 r200 by blast
  have h3: "testProxyConnection w2 p t" using rule_2 parse_2 r200 trim by blast
  from f1 f2 f3 g1 g2 g3 h1 h2 h3 show ?thesis
    unfolding wf_def w4_def w2_def p_def u_def t_def a_def by (intro conjI)
qed

text \<open>
  The claim as the specification words it, success for every status below 400, fails on
  the code: \<^verbatim>\<open>deep.go\<close> refuses the status 101, the worker program the status 204, and
  the \<^verbatim>\<open>ProxyChecker\<close> program the status 201 with a body.
\<close>

theorem probe_success_below_400_counterexample:
  "http_Do (world_status 101 ''x'') ''http://1.2.3.4:8080'' ''http://example.com''
     = Inr \<lparr>StatusCode = 101, Body = Inr ''x''\<rparr>
   \<and> (101 :: int) < 400
   \<and> \<not> checkWithClient (world_status 101 ''x'') ''http://1.2.3.4:8080'' ''http://example.com''
   \<and> http_Do (world_status 204 '''') ''http://1.2.3.4:8080'' checkURL
     = Inr \<lparr>StatusCode = 204, Body = Inr ''''\<rparr>
   \<and> (204 :: int) < 400
   \<and> \<not> checkProxyWorker_round (world_status 204 '''') ''1.2.3.4:8080''
   \<and> http_Do (world_status 201 ''x'') ''http://1.2.3.4:8080'' ''http://httpbin.org/ip''
     = Inr \<lparr>StatusCode = 201, Body = Inr ''x''\<rparr>
   \<and> (201 :: int) < 400 \<and> ''x'' \<noteq> ''''
   \<and> \<not> testProxyConnection (world_status 201 ''x'')
        \<lparr>IP = ''1.2.3.4'', Port = ''8080'', Full = ''1.2.3.4:8080''\<rparr> ''http://httpbin.org/ip''"
  by (simp add: world_status_def checkWithClient_def checkProxyWorker_round_def
      testProxyConnection_def client_Do_via_def)

section \<open>Harvesting\<close>

subsection \<open>What \<^verbatim>\<open>parseProxies\<close> lets through\<close>

lemma parseProxies_loop_valid:
  "\<forall>p \<in> set acc. isValidIP ParseIP (IP p) \<and> isValidPort (Port p) \<Longrightarrow>
   \<forall>p \<in> set (parseProxies_loop ParseIP ms acc). isValidIP ParseIP (IP p) \<and> isValidPort (Port p)"
proof (induction ms arbitrary: acc)
  case Nil
  then show ?case by simp
next
  case (Cons m ms)
  obtain ip port where m: "m = (ip, port)" by (cases m)
  show ?case
  proof (cases "isValidIP ParseIP ip \<and> isValidPort port")
    case True
    with Cons.prems have
      "\<forall>p \<in> set (acc @ [\<lparr>IP = ip, Port = port, Full = ip @ '':'' @ port\<rparr>]).
         isValidIP ParseIP (IP p) \<and> isValidPort (Port p)"
      by simp
    from Cons.IH [OF this] True m show ?thesis by simp
  next
    case False
    with Cons.IH [OF Cons.prems] m show ?thesis by auto
  qed
qed

lemma parseProxies_valid:
  "p \<in> set (parseProxies ParseIP content) \<Longrightarrow> isValidIP ParseIP (IP p) \<and> isValidPort (Port p)"
  using parseProxies_loop_valid [of "[]" ParseIP "FindAllStringSubmatch content"]
  by (simp add: parseProxies_def)

lemma match_at_port_99999: "match_at ''1.2.3.4:99999'' = Some (''1.2.3.4'', ''99999'', [])"
  by (simp add: match_at_def digits1_def is_digit_def eval_nat_numeral)

lemma match_at_port_0: "match_at ''1.2.3.4:0'' = Some (''1.2.3.4'', ''0'', [])"
  by (simp add: match_at_def digits1_def is_digit_def eval_nat_numeral)

lemma net_ParseIP_1234: "net_ParseIP ''1.2.3.4'' = Some [1, 2, 3, 4]"
  by (simp add: net_ParseIP_def ipv4_field_def is_digit_def decimal_def)

text \<open>
  Claim C6 at its failing inputs. \<^verbatim>\<open>isValidPort\<close> carries the comment that a port must
  lie between 1 and 65535, and tests the length and the digits only: the lines
  \<^verbatim>\<open>1.2.3.4:99999\<close> and \<^verbatim>\<open>1.2.3.4:0\<close> each give a candidate, with a port outside the
  range.
\<close>

theorem parseProxies_port_out_of_range:
  "parseProxies net_ParseIP ''1.2.3.4:99999''
     = [\<lparr>IP = ''1.2.3.4'', Port = ''99999'', Full = ''1.2.3.4:99999''\<rparr>]
   \<and> isValidPort ''99999'' \<and> decimal ''99999'' = 99999 \<and> (99999 :: nat) > 65535
   \<and> parseProxies net_ParseIP ''1.2.3.4:0''
     = [\<lparr>IP = ''1.2.3.4'', Port = ''0'', Full = ''1.2.3.4:0''\<rparr>]
   \<and> isValidPort ''0'' \<and> decimal ''0'' = 0 \<and> (0 :: nat) < 1"
proof -
  have f1: "FindAllStringSubmatch ''1.2.3.4:99999'' = [(''1.2.3.4'', ''99999'')]"
    by (simp add: match_at_port_99999)
  have f2: "FindAllStringSubmatch ''1.2.3.4:0'' = [(''1.2.3.4'', ''0'')]"
    by (simp add: match_at_port_0)
  have v: "isValidPort ''99999''" "isValidPort ''0''"
    by (simp_all add: isValidPort_def)
  have d: "decimal ''99999'' = 99999" "decimal ''0'' = 0"
    by (simp_all add: decimal_def)
  have p1: "parseProxies net_ParseIP ''1.2.3.4:99999''
     = [\<lparr>IP = ''1.2.3.4'', Port = ''99999'', Full = ''1.2.3.4:99999''\<rparr>]"
    by (simp add: parseProxies_def f1 net_ParseIP_1234 v isValidIP_def
        del: FindAllStringSubmatch.simps)
  have p2: "parseProxies net_ParseIP ''1.2.3.4:0''
     = [\<lparr>IP = ''1.2.3.4'', Port = ''0'', Full = ''1.2.3.4:0''\<rparr>]"
    by (simp add: parseProxies_def f2 net_ParseIP_1234 v isValidIP_def
        del: FindAllStringSubmatch.simps)
  from p1 p2 v d show ?thesis by simp
qed

subsection \<open>Retries and their pauses\<close>

text \<open>An attempt takes the \<^verbatim>\<open>break\<close> when it returns no error and the status 200.\<close>

lemma fetched_ok_client_Get:
  "fetched_ok (client_Get get i st) = (\<exists>r. get i = Inr r \<and> StatusCode r = 200)"
  by (auto simp: fetched_ok_def client_Get_def split: sum.splits)

lemma scrape_loop_unfold:
  "i < 3 \<Longrightarrow> scrape_loop get i st =
     (let st' = client_Get get i st in
      if fetched_ok st' then st'
      else scrape_loop get (Suc i) (st'\<lparr>slept := slept st' @ [Suc i]\<rparr>))"
  by (subst scrape_loop.simps) (simp add: Let_def)

lemma scrape_loop_done: "\<not> i < 3 \<Longrightarrow> scrape_loop get i st = st"
  by (subst scrape_loop.simps) simp

lemma client_Get_fields:
  "client_Get get i st =
     \<lparr>resp = (case get i of Inl e \<Rightarrow> None | Inr r \<Rightarrow> Some r),
      err = (case get i of Inl e \<Rightarrow> Some e | Inr r \<Rightarrow> None),
      requests = requests st + 1, slept = slept st\<rparr>"
  by (cases st) (simp add: client_Get_def split: sum.splits)

lemmas small_numerals = numeral_2_eq_2 numeral_3_eq_3

lemmas scrape_loop_eval =
  scrape_loop_unfold scrape_loop_done Let_def fetched_ok_def client_Get_fields fetch_start_def
  small_numerals

text \<open>The ways the loop can end, by the first attempt that takes the \<^verbatim>\<open>break\<close>.\<close>

lemma scrape_loop_first:
  assumes "get 0 = Inr r" "StatusCode r = 200"
  shows "scrape_loop get 0 fetch_start = \<lparr>resp = Some r, err = None, requests = 1, slept = []\<rparr>"
  using assms by (simp add: scrape_loop_eval)

lemma scrape_loop_second:
  assumes "\<not> (\<exists>r. get 0 = Inr r \<and> StatusCode r = 200)" "get 1 = Inr r" "StatusCode r = 200"
  shows "scrape_loop get 0 fetch_start = \<lparr>resp = Some r, err = None, requests = 2, slept = [1]\<rparr>"
  using assms by (cases "get 0") (simp_all add: scrape_loop_eval)

lemma scrape_loop_third:
  assumes "\<not> (\<exists>r. get 0 = Inr r \<and> StatusCode r = 200)"
    "\<not> (\<exists>r. get 1 = Inr r \<and> StatusCode r = 200)" "get 2 = Inr r" "StatusCode r = 200"
  shows "scrape_loop get 0 fetch_start =
    \<lparr>resp = Some r, err = None, requests = 3, slept = [1, 2]\<rparr>"
  using assms by (cases "get 0"; cases "get 1") (simp_all add: scrape_loop_eval)

lemma scrape_loop_none:
  assumes "\<not> (\<exists>r. get 0 = Inr r \<and> StatusCode r = 200)"
    "\<not> (\<exists>r. get 1 = Inr r \<and> StatusCode r = 200)"
    "\<not> (\<exists>r. get 2 = Inr r \<and> StatusCode r = 200)"
  shows "scrape_loop get 0 fetch_start =
    \<lparr>resp = (case get 2 of Inl e \<Rightarrow> None | Inr r \<Rightarrow> Some r),
     err = (case get 2 of Inl e \<Rightarrow> Some e | Inr r \<Rightarrow> None),
     requests = 3, slept = [1, 2, 3]\<rparr>"
  using assms by (cases "get 0"; cases "get 1"; cases "get 2") (simp_all add: scrape_loop_eval)

lemma takes_break_iff:
  "takes_break get i = (\<exists>r. get i = Inr r \<and> StatusCode r = 200)"
  by (simp add: takes_break_def fetched_ok_client_Get)

lemma scrape_loop_cases:
  "scrape_loop get 0 fetch_start =
     (if takes_break get 0 then
        \<lparr>resp = Some (projr (get 0)), err = None, requests = 1, slept = []\<rparr>
      else if takes_break get 1 then
        \<lparr>resp = Some (projr (get 1)), err = None, requests = 2, slept = [1]\<rparr>
      else if takes_break get 2 then
        \<lparr>resp = Some (projr (get 2)), err = None, requests = 3, slept = [1, 2]\<rparr>
      else
        \<lparr>resp = (case get 2 of Inl e \<Rightarrow> None | Inr r \<Rightarrow> Some r),
         err = (case get 2 of Inl e \<Rightarrow> Some e | Inr r \<Rightarrow> None),
         requests = 3, slept = [1, 2, 3]\<rparr>)"
proof -
  have a: ?thesis if "takes_break get 0"
  proof -
    from that obtain r where "get 0 = Inr r" "StatusCode r = 200"
      by (auto simp: takes_break_iff)
    with that show ?thesis by (simp add: scrape_loop_first)
  qed
  have b: ?thesis if "\<not> takes_break get 0" "takes_break get 1"
  proof -
    from that obtain r where "get 1 = Inr r" "StatusCode r = 200"
      by (auto simp: takes_break_iff)
    with that show ?thesis by (simp add: scrape_loop_second takes_break_iff)
  qed
  have c: ?thesis
    if "\<not> takes_break get 0" "\<not> takes_break get 1" "takes_break get 2"
  proof -
    from that obtain r where "get 2 = Inr r" "StatusCode r = 200"
      by (auto simp: takes_break_iff)
    with that show ?thesis by (simp add: scrape_loop_third takes_break_iff)
  qed
  have d: ?thesis
    if "\<not> takes_break get 0" "\<not> takes_break get 1" "\<not> takes_break get 2"
    using that by (simp add: scrape_loop_none takes_break_iff)
  from a b c d show ?thesis by blast
qed

lemma scrapeProxiesFromURL_no_panic:
  "fst (scrapeProxiesFromURL ParseIP get) \<noteq> Panics"
proof -
  have "scrapeProxiesFromURL_result ParseIP (scrape_loop get 0 fetch_start) \<noteq> Panics"
    unfolding scrape_loop_cases
    by (cases "get 2")
      (auto simp: scrapeProxiesFromURL_result_def split: sum.splits)
  then show ?thesis by (simp add: scrapeProxiesFromURL_def Let_def)
qed

lemma scrape_loop_break:
  assumes "get i = Inr r" "StatusCode r = 200" "\<forall>j < i. \<not> takes_break get j" "i < 3"
  shows "scrape_loop get 0 fetch_start =
    \<lparr>resp = Some r, err = None, requests = i + 1, slept = map Suc [0..<i]\<rparr>"
proof -
  from assms(1,2) have ok: "takes_break get i" by (simp add: takes_break_iff)
  from assms(4) consider "i = 0" | "i = 1" | "i = 2" by linarith
  then show ?thesis
  proof cases
    case 1
    with ok assms(1) show ?thesis by (simp add: scrape_loop_cases)
  next
    case 2
    with ok assms(1,3) show ?thesis by (simp add: scrape_loop_cases)
  next
    case 3
    with assms(3) have "\<not> takes_break get 0" "\<not> takes_break get 1" by simp_all
    with 3 ok assms(1) show ?thesis by (simp add: scrape_loop_cases upt_rec)
  qed
qed

lemma scrapeProxiesFromURL_success:
  assumes "get i = Inr r" "StatusCode r = 200" "\<forall>j < i. \<not> takes_break get j" "i < 3"
  shows "fst (scrapeProxiesFromURL ParseIP get) =
    (case Body r of
       Inl e \<Rightarrow> Returns (Inl (Wrap ''failed to read response'' e))
     | Inr body \<Rightarrow> Returns (Inr (parseProxies ParseIP body)))"
  using scrape_loop_break [OF assms] assms(2)
  by (simp add: scrapeProxiesFromURL_def Let_def scrapeProxiesFromURL_result_def)

lemma scrapeProxiesFromURL_requests:
  assumes "get i = Inr r" "StatusCode r = 200" "\<forall>j < i. \<not> takes_break get j" "i < 3"
  shows "requests (snd (scrapeProxiesFromURL ParseIP get)) = i + 1"
    and "slept (snd (scrapeProxiesFromURL ParseIP get)) = map Suc [0..<i]"
  using scrape_loop_break [OF assms]
  by (simp_all add: scrapeProxiesFromURL_def Let_def)

lemma scrapeProxiesFromURL_exhausted:
  assumes "\<not> takes_break get 0" "\<not> takes_break get 1" "\<not> takes_break get 2"
  shows "\<exists>e. fst (scrapeProxiesFromURL ParseIP get) = Returns (Inl e)"
proof (cases "get 2")
  case (Inl e)
  with assms show ?thesis
    by (simp add: scrapeProxiesFromURL_def Let_def scrape_loop_cases
        scrapeProxiesFromURL_result_def)
next
  case (Inr r)
  with assms(3) have "StatusCode r \<noteq> 200" by (simp add: takes_break_iff)
  with Inr assms show ?thesis
    by (simp add: scrapeProxiesFromURL_def Let_def scrape_loop_cases
        scrapeProxiesFromURL_result_def)
qed

text \<open>
  Claim C5, as amended. The loop of \<^verbatim>\<open>scrapeProxiesFromURL\<close> sends a further request
  while \<^verbatim>\<open>client.Get\<close> returns an error or a status other than 200, three requests at
  most; it pauses 1, 2, 3 seconds after the first, second, third such attempt, so each
  pause is at least the one before; the call never panics, and gives an error when the
  three attempts fail. A source that answers with status 200 at its third attempt gives
  the result of one that answers the same at once. The body is read after the loop: when
  reading the body of the answer of status 200 fails, no further request is sent and the
  call gives the error \<^verbatim>\<open>failed to read response\<close>.
\<close>

theorem retry_with_backoff:
  "requests (snd (scrapeProxiesFromURL ParseIP get)) =
     (if takes_break get 0 then 1 else if takes_break get 1 then 2 else 3)
   \<and> 1 \<le> requests (snd (scrapeProxiesFromURL ParseIP get))
   \<and> requests (snd (scrapeProxiesFromURL ParseIP get)) \<le> 3
   \<and> slept (snd (scrapeProxiesFromURL ParseIP get)) =
     (if takes_break get 0 then [] else if takes_break get 1 then [1]
      else if takes_break get 2 then [1, 2] else [1, 2, 3])
   \<and> sorted (slept (snd (scrapeProxiesFromURL ParseIP get)))
   \<and> fst (scrapeProxiesFromURL ParseIP get) \<noteq> Panics
   \<and> (\<not> takes_break get 0 \<and> \<not> takes_break get 1 \<and> get 2 = Inr r
        \<and> StatusCode r = 200 \<and> get' 0 = Inr r
       \<longrightarrow> fst (scrapeProxiesFromURL ParseIP get) = fst (scrapeProxiesFromURL ParseIP get'))
   \<and> (\<not> takes_break get 0 \<and> \<not> takes_break get 1 \<and> get 2 = Inr r
        \<and> StatusCode r = 200 \<and> Body r = Inr body
       \<longrightarrow> fst (scrapeProxiesFromURL ParseIP get) = Returns (Inr (parseProxies ParseIP body)))
   \<and> (takes_break get i = (case get i of Inl e \<Rightarrow> False | Inr a \<Rightarrow> StatusCode a = 200))
   \<and> (\<not> takes_break get 0 \<and> \<not> takes_break get 1 \<and> \<not> takes_break get 2
       \<longrightarrow> (\<exists>e. fst (scrapeProxiesFromURL ParseIP get) = Returns (Inl e)))
   \<and> (i < 3 \<and> (\<forall>j < i. \<not> takes_break get j) \<and> get i = Inr c \<and> StatusCode c = 200
        \<and> Body c = Inl failure
       \<longrightarrow> requests (snd (scrapeProxiesFromURL ParseIP get)) = i + 1
           \<and> slept (snd (scrapeProxiesFromURL ParseIP get)) = map Suc [0..<i]
           \<and> fst (scrapeProxiesFromURL ParseIP get)
               = Returns (Inl (Wrap ''failed to read response'' failure)))"
proof -
  let ?st = "snd (scrapeProxiesFromURL ParseIP get)"
  have st: "?st = scrape_loop get 0 fetch_start"
    by (simp add: scrapeProxiesFromURL_def Let_def)
  have n: "requests ?st =
     (if takes_break get 0 then 1 else if takes_break get 1 then 2 else 3)"
    unfolding st scrape_loop_cases by simp
  have s: "slept ?st =
     (if takes_break get 0 then [] else if takes_break get 1 then [1]
      else if takes_break get 2 then [1, 2] else [1, 2, 3])"
    unfolding st scrape_loop_cases by simp
  from n have b: "1 \<le> requests ?st" "requests ?st \<le> 3" by simp_all
  from s have o: "sorted (slept ?st)" by simp
  have same: "fst (scrapeProxiesFromURL ParseIP get) = fst (scrapeProxiesFromURL ParseIP get')"
    if "\<not> takes_break get 0" "\<not> takes_break get 1" "get 2 = Inr r"
      "StatusCode r = 200" "get' 0 = Inr r"
  proof -
    from that have "\<forall>j < 2. \<not> takes_break get j"
      by (simp add: less_Suc_eq numeral_2_eq_2)
    with that have "fst (scrapeProxiesFromURL ParseIP get) =
      (case Body r of
         Inl e \<Rightarrow> Returns (Inl (Wrap ''failed to read response'' e))
       | Inr body \<Rightarrow> Returns (Inr (parseProxies ParseIP body)))"
      by (intro scrapeProxiesFromURL_success [of get 2]) simp_all
    moreover from that have "fst (scrapeProxiesFromURL ParseIP get') =
      (case Body r of
         Inl e \<Rightarrow> Returns (Inl (Wrap ''failed to read response'' e))
       | Inr body \<Rightarrow> Returns (Inr (parseProxies ParseIP body)))"
      by (intro scrapeProxiesFromURL_success [of get' 0]) simp_all
    ultimately show ?thesis by simp
  qed
  have third: "fst (scrapeProxiesFromURL ParseIP get) = Returns (Inr (parseProxies ParseIP body))"
    if "\<not> takes_break get 0" "\<not> takes_break get 1" "get 2 = Inr r"
      "StatusCode r = 200" "Body r = Inr body"
  proof -
    from that have "\<forall>j < 2. \<not> takes_break get j"
      by (simp add: less_Suc_eq numeral_2_eq_2)
    with that have "fst (scrapeProxiesFromURL ParseIP get) =
      (case Body r of
         Inl e \<Rightarrow> Returns (Inl (Wrap ''failed to read response'' e))
       | Inr body \<Rightarrow> Returns (Inr (parseProxies ParseIP body)))"
      by (intro scrapeProxiesFromURL_success [of get 2]) simp_all
    with that show ?thesis by simp
  qed
  have test: "takes_break get i = (case get i of Inl e \<Rightarrow> False | Inr a \<Rightarrow> StatusCode a = 200)"
    by (simp add: takes_break_iff split: sum.splits)
  have cut: "requests ?st = i + 1 \<and> slept ?st = map Suc [0..<i]
      \<and> fst (scrapeProxiesFromURL ParseIP get)
          = Returns (Inl (Wrap ''failed to read response'' failure))"
    if "i < 3" "\<forall>j < i. \<not> takes_break get j" "get i = Inr c" "StatusCode c = 200"
      "Body c = Inl failure"
    using scrapeProxiesFromURL_success [OF that(3,4,2,1), of ParseIP]
      scrapeProxiesFromURL_requests [OF that(3,4,2,1), of ParseIP] that(5)
    by simp
  from n b s o same third test cut scrapeProxiesFromURL_no_panic [of ParseIP get]
    scrapeProxiesFromURL_exhausted [of get ParseIP]
  show ?thesis by blast
qed

theorem retry_with_backoff_witness:
  "fst (scrapeProxiesFromURL net_ParseIP source_third)
     = fst (scrapeProxiesFromURL net_ParseIP source_first)
   \<and> fst (scrapeProxiesFromURL net_ParseIP source_third)
     = Returns (Inr (parseProxies net_ParseIP ''1.2.3.4:8080''))
   \<and> requests (snd (scrapeProxiesFromURL net_ParseIP source_third)) = 3
   \<and> slept (snd (scrapeProxiesFromURL net_ParseIP source_third)) = [1, 2]
   \<and> requests (snd (scrapeProxiesFromURL net_ParseIP source_first)) = 1
   \<and> slept (snd (scrapeProxiesFromURL net_ParseIP source_first)) = []
   \<and> requests (snd (scrapeProxiesFromURL net_ParseIP source_down)) = 3
   \<and> slept (snd (scrapeProxiesFromURL net_ParseIP source_down)) = [1, 2, 3]
   \<and> (\<exists>e. fst (scrapeProxiesFromURL net_ParseIP source_down) = Returns (Inl e))
   \<and> requests (snd (scrapeProxiesFromURL net_ParseIP source_cut)) = 0 + 1
   \<and> fst (scrapeProxiesFromURL net_ParseIP source_cut)
     = Returns (Inl (Wrap ''failed to read response'' (Error ''connection reset by peer'')))"
proof -
  define cut where "cut = \<lparr>StatusCode = 200, Body = Inl (Error ''connection reset by peer'')\<rparr>"
  define reset where "reset = Error ''connection reset by peer''"
  have f: "\<not> takes_break source_third 0" "\<not> takes_break source_third 1"
    "takes_break source_third 2" "takes_break source_first 0"
    "\<not> takes_break source_down 0" "\<not> takes_break source_down 1"
    "\<not> takes_break source_down 2"
    by (simp_all add: takes_break_iff source_third_def source_first_def source_answer_def
        source_down_def)
  have g: "source_third 2 = Inr source_answer" "source_first 0 = Inr source_answer"
    "StatusCode source_answer = 200" "Body source_answer = Inr ''1.2.3.4:8080''"
    by (simp_all add: source_third_def source_first_def source_answer_def)
  have h: "(0::nat) < 3" "\<forall>j < (0::nat). \<not> takes_break source_cut j" "source_cut 0 = Inr cut"
    "StatusCode cut = 200" "Body cut = Inl reset"
    by (simp_all add: source_cut_def cut_def reset_def)
  note third = retry_with_backoff
    [of net_ParseIP source_third source_answer source_first "''1.2.3.4:8080''"]
  note first = retry_with_backoff
    [of net_ParseIP source_first source_answer source_first "''1.2.3.4:8080''"]
  note down = retry_with_backoff [of net_ParseIP source_down]
  note broken = retry_with_backoff [of net_ParseIP source_cut _ _ _ 0 cut reset]
  from third f g have
    "fst (scrapeProxiesFromURL net_ParseIP source_third)
       = fst (scrapeProxiesFromURL net_ParseIP source_first)"
    "fst (scrapeProxiesFromURL net_ParseIP source_third)
       = Returns (Inr (parseProxies net_ParseIP ''1.2.3.4:8080''))"
    by blast+
  moreover from third f have
    "requests (snd (scrapeProxiesFromURL net_ParseIP source_third)) = 3"
    "slept (snd (scrapeProxiesFromURL net_ParseIP source_third)) = [1, 2]"
    by simp_all
  moreover from first f have
    "requests (snd (scrapeProxiesFromURL net_ParseIP source_first)) = 1"
    "slept (snd (scrapeProxiesFromURL net_ParseIP source_first)) = []"
    by simp_all
  moreover from down f have
    "requests (snd (scrapeProxiesFromURL net_ParseIP source_down)) = 3"
    "slept (snd (scrapeProxiesFromURL net_ParseIP source_down)) = [1, 2, 3]"
    by simp_all
  moreover from down f have
    "\<exists>e. fst (scrapeProxiesFromURL net_ParseIP source_down) = Returns (Inl e)"
    by blast
  moreover from broken h have
    "requests (snd (scrapeProxiesFromURL net_ParseIP source_cut)) = 0 + 1"
    "fst (scrapeProxiesFromURL net_ParseIP source_cut)
       = Returns (Inl (Wrap ''failed to read response'' reset))"
    by simp_all
  ultimately show ?thesis
    unfolding reset_def by (intro conjI)
qed

text \<open>
  The claim as the specification words it fails for a transient failure that comes
  after the status line. The connection to the source is reset while the body of its
  first answer is read; a second request would have been answered with a candidate.
  \<^verbatim>\<open>scrapeProxiesFromURL\<close> sends one request, takes no pause, and gives up the source.
\<close>

theorem body_failure_not_retried_counterexample:
  "source_cut 0 = Inr \<lparr>StatusCode = 200, Body = Inl (Error ''connection reset by peer'')\<rparr>
   \<and> source_cut 1 = Inr \<lparr>StatusCode = 200, Body = Inr ''1.2.3.4:8080''\<rparr>
   \<and> requests (snd (scrapeProxiesFromURL net_ParseIP source_cut)) = 1
   \<and> slept (snd (scrapeProxiesFromURL net_ParseIP source_cut)) = []
   \<and> fst (scrapeProxiesFromURL net_ParseIP source_cut)
     = Returns (Inl (Wrap ''failed to read response'' (Error ''connection reset by peer'')))"
proof -
  define cut where "cut = \<lparr>StatusCode = 200, Body = Inl (Error ''connection reset by peer'')\<rparr>"
  have c: "source_cut 0 = Inr cut" "StatusCode cut = 200"
    "\<forall>j < (0::nat). \<not> takes_break source_cut j" "(0::nat) < 3"
    by (simp_all add: source_cut_def cut_def)
  have "source_cut 1 = Inr \<lparr>StatusCode = 200, Body = Inr ''1.2.3.4:8080''\<rparr>"
    by (simp add: source_cut_def source_answer_def)
  moreover from scrapeProxiesFromURL_requests [OF c, of net_ParseIP] have
    "requests (snd (scrapeProxiesFromURL net_ParseIP source_cut)) = 1"
    "slept (snd (scrapeProxiesFromURL net_ParseIP source_cut)) = []"
    by simp_all
  moreover from scrapeProxiesFromURL_success [OF c, of net_ParseIP] have
    "fst (scrapeProxiesFromURL net_ParseIP source_cut)
      = Returns (Inl (Wrap ''failed to read response'' (Error ''connection reset by peer'')))"
    by (simp add: cut_def)
  ultimately show ?thesis
    using c(1) unfolding cut_def by (intro conjI)
qed
section \<open>Concurrent validation in \<^verbatim>\<open>deep.go\<close>\<close>

subsection \<open>Steps\<close>


lemma sum_list_map_update:
  fixes f :: "'a \<Rightarrow> 'b :: comm_monoid_add"
  shows "i < length xs \<Longrightarrow>
    sum_list (map f (xs[i := y])) + f (xs ! i) = sum_list (map f xs) + f y"
proof (induction xs arbitrary: i)
  case Nil
  then show ?case by simp
next
  case (Cons x xs)
  show ?case
  proof (cases i)
    case 0
    then show ?thesis by (simp add: ac_simps)
  next
    case (Suc j)
    with Cons.prems have "j < length xs" by simp
    from Cons.IH [OF this] Suc show ?thesis by (simp add: ac_simps)
  qed
qed

lemma sem_step_cases [consumes 1, case_names go acquire check release report]:
  assumes "sem_step W w a s = Some s'"
  obtains
    (go) i p where "a = Go i" "i < length (gs s)" "gs s ! i = (p, G_NotStarted)"
      "list_all (\<lambda>(p, g). g \<noteq> G_NotStarted) (take i (gs s))"
      "s' = s\<lparr>gs := (gs s)[i := (p, G_AtSem)]\<rparr>"
  | (acquire) i p where "a = Acquire i" "i < length (gs s)" "gs s ! i = (p, G_AtSem)"
      "sem s < W" "s' = s\<lparr>gs := (gs s)[i := (p, G_Checking)], sem := sem s + 1\<rparr>"
  | (check) i p where "a = Check i" "i < length (gs s)" "gs s ! i = (p, G_Checking)"
      "s' = s\<lparr>gs := (gs s)[i := (p, G_Checked (checkProxy w p))]\<rparr>"
  | (release) i p alive where "a = Release i" "i < length (gs s)"
      "gs s ! i = (p, G_Checked alive)" "sem s > 0"
      "s' = s\<lparr>gs := (gs s)[i := (p, G_Reporting alive)], sem := sem s - 1\<rparr>"
  | (report) i p alive where "a = Report i" "i < length (gs s)"
      "gs s ! i = (p, G_Reporting alive)"
      "s' = s\<lparr>gs := (gs s)[i := (p, G_Finished)],
               goodProxies := (if alive then goodProxies s @ [p] else goodProxies s)\<rparr>"
proof (cases a)
  case (Go i)
  with assms show ?thesis
    by (intro go [of i "fst (gs s ! i)"])
      (auto simp: place_def move_def split: if_splits intro: prod_eqI)
next
  case (Acquire i)
  with assms show ?thesis
    by (intro acquire [of i "fst (gs s ! i)"])
      (auto simp: place_def move_def split: if_splits intro: prod_eqI)
next
  case (Check i)
  with assms show ?thesis
    by (intro check [of i "fst (gs s ! i)"])
      (auto simp: place_def move_def split: if_splits intro: prod_eqI)
next
  case (Release i)
  with assms obtain alive where "place s i = Some (G_Checked alive)"
    by (auto split: option.splits goroutine.splits)
  with Release assms show ?thesis
    by (intro release [of i "fst (gs s ! i)" alive])
      (auto simp: place_def move_def split: if_splits intro: prod_eqI)
next
  case (Report i)
  with assms obtain alive where "place s i = Some (G_Reporting alive)"
    by (auto split: option.splits goroutine.splits)
  with Report assms show ?thesis
    by (intro report [of i "fst (gs s ! i)" alive])
      (auto simp: place_def move_def split: if_splits intro: prod_eqI)
qed

lemma sem_run_induct [consumes 1, case_names start step]:
  assumes "sem_run W w sched s0 = Some s" "P s0"
    "\<And>a s s'. P s \<Longrightarrow> sem_step W w a s = Some s' \<Longrightarrow> P s'"
  shows "P s"
  using assms(1,2)
proof (induction sched arbitrary: s0)
  case Nil
  then show ?case by simp
next
  case (Cons a sched)
  then show ?case by (auto split: option.splits intro: assms(3))
qed


lemma sem_run_append:
  "sem_run W w (xs @ ys) s =
     (case sem_run W w xs s of None \<Rightarrow> None | Some s' \<Rightarrow> sem_run W w ys s')"
  by (induction xs arbitrary: s) (auto split: option.splits)

subsection \<open>Invariants of a run\<close>

lemma sem_step_args:
  "sem_step W w a s = Some s' \<Longrightarrow> map fst (gs s') = map fst (gs s)"
proof (induction rule: sem_step_cases)
  case (go i p)
  then show ?case by (simp add: map_update) (metis fst_conv list_update_id map_update)
next
  case (acquire i p)
  then show ?case by (simp add: map_update) (metis fst_conv list_update_id map_update)
next
  case (check i p)
  then show ?case by (simp add: map_update) (metis fst_conv list_update_id map_update)
next
  case (release i p alive)
  then show ?case by (simp add: map_update) (metis fst_conv list_update_id map_update)
next
  case (report i p alive)
  then show ?case by (simp add: map_update) (metis fst_conv list_update_id map_update)
qed

lemma sem_step_slots:
  assumes "sem_step W w a s = Some s'"
    and "sem s = sum_list (map (\<lambda>x. holds_slot (snd x)) (gs s))"
  shows "sem s' = sum_list (map (\<lambda>x. holds_slot (snd x)) (gs s'))"
  using assms
proof (induction rule: sem_step_cases)
  case (go i p)
  with sum_list_map_update [of i "gs s" "\<lambda>x. holds_slot (snd x)" "(p, G_AtSem)"]
  show ?case by simp
next
  case (acquire i p)
  with sum_list_map_update [of i "gs s" "\<lambda>x. holds_slot (snd x)" "(p, G_Checking)"]
  show ?case by simp
next
  case (check i p)
  with sum_list_map_update [of i "gs s" "\<lambda>x. holds_slot (snd x)" "(p, G_Checked (checkProxy w p))"]
  show ?case by simp
next
  case (release i p alive)
  with sum_list_map_update [of i "gs s" "\<lambda>x. holds_slot (snd x)" "(p, G_Reporting alive)"]
  show ?case by simp
next
  case (report i p alive)
  with sum_list_map_update [of i "gs s" "\<lambda>x. holds_slot (snd x)" "(p, G_Finished)"]
  show ?case by simp
qed

lemma sem_step_bound:
  "sem_step W w a s = Some s' \<Longrightarrow> sem s \<le> W \<Longrightarrow> sem s' \<le> W"
  by (induction rule: sem_step_cases) simp_all

lemma sem_step_verdicts:
  assumes "sem_step W w a s = Some s'" and "list_all (verdict_of w) (gs s)"
  shows "list_all (verdict_of w) (gs s')"
proof -
  have upd: "list_all (verdict_of w) ((gs s)[i := x])" if "verdict_of w x" for i x
    using assms(2) that by (auto simp: list_all_iff dest!: set_update_subset_insert [THEN subsetD])
  have at: "verdict_of w (gs s ! i)" if "i < length (gs s)" for i
    using assms(2) that by (simp add: list_all_length)
  from assms(1) show ?thesis
  proof (induction rule: sem_step_cases)
    case (release i p alive)
    with at [of i] show ?case by (simp add: upd)
  qed (simp_all add: upd)
qed

lemma sem_step_appended:
  assumes step: "sem_step W w a s = Some s'" and v: "list_all (verdict_of w) (gs s)"
    and m: "mset (goodProxies s) = sum_list (map (appended w) (gs s))"
  shows "mset (goodProxies s') = sum_list (map (appended w) (gs s'))"
  using step
proof (cases rule: sem_step_cases)
  case (go i p)
  with m sum_list_map_update [of i "gs s" "appended w" "(p, G_AtSem)"]
  show ?thesis by simp
next
  case (acquire i p)
  with m sum_list_map_update [of i "gs s" "appended w" "(p, G_Checking)"]
  show ?thesis by simp
next
  case (check i p)
  with m sum_list_map_update [of i "gs s" "appended w" "(p, G_Checked (checkProxy w p))"]
  show ?thesis by simp
next
  case (release i p alive)
  with m sum_list_map_update [of i "gs s" "appended w" "(p, G_Reporting alive)"]
  show ?thesis by simp
next
  case (report i p alive)
  from v report(2) have "verdict_of w (gs s ! i)" by (simp add: list_all_length)
  with report(3) have "alive = checkProxy w p" by simp
  with report m sum_list_map_update [of i "gs s" "appended w" "(p, G_Finished)"]
  show ?thesis by simp
qed

lemma sem_step_steps:
  assumes "sem_step W w a s = Some s'"
  shows "sum_list (map (\<lambda>x. steps_taken (snd x)) (gs s')) = Suc (sum_list (map (\<lambda>x. steps_taken (snd x)) (gs s)))"
  using assms
proof (induction rule: sem_step_cases)
  case (go i p)
  with sum_list_map_update [of i "gs s" "\<lambda>x. steps_taken (snd x)" "(p, G_AtSem)"]
  show ?case by simp
next
  case (acquire i p)
  with sum_list_map_update [of i "gs s" "\<lambda>x. steps_taken (snd x)" "(p, G_Checking)"]
  show ?case by simp
next
  case (check i p)
  with sum_list_map_update [of i "gs s" "\<lambda>x. steps_taken (snd x)" "(p, G_Checked (checkProxy w p))"]
  show ?case by simp
next
  case (release i p alive)
  with sum_list_map_update [of i "gs s" "\<lambda>x. steps_taken (snd x)" "(p, G_Reporting alive)"]
  show ?case by simp
next
  case (report i p alive)
  with sum_list_map_update [of i "gs s" "\<lambda>x. steps_taken (snd x)" "(p, G_Finished)"]
  show ?case by simp
qed





text \<open>The invariant of the runs, and what it gives in a final state.\<close>

lemma sem_inv_init: "sem_inv W w proxies (sem_init proxies)"
proof -
  have "sum_list (map (\<lambda>x. holds_slot (snd x)) (map (\<lambda>p. (p, G_NotStarted)) ps)) = 0"
    for ps :: "string list"
    by (induction ps) simp_all
  moreover have "sum_list (map (appended w) (map (\<lambda>p. (p, G_NotStarted)) ps)) = {#}" for ps
    by (induction ps) simp_all
  moreover have "list_all (verdict_of w) (map (\<lambda>p. (p, G_NotStarted)) ps)" for ps
    by (induction ps) simp_all
  ultimately show ?thesis
    by (simp add: sem_inv_def sem_init_def comp_def)
qed

lemma sem_inv_step:
  "sem_inv W w proxies s \<Longrightarrow> sem_step W w a s = Some s' \<Longrightarrow> sem_inv W w proxies s'"
  unfolding sem_inv_def
  using sem_step_args [of W w a s s'] sem_step_slots [of W w a s s']
    sem_step_bound [of W w a s s'] sem_step_verdicts [of W w a s s']
    sem_step_appended [of W w a s s']
  by simp

lemma sem_inv_run:
  "sem_run W w sched s0 = Some s \<Longrightarrow> sem_inv W w proxies s0 \<Longrightarrow> sem_inv W w proxies s"
  by (induction rule: sem_run_induct) (auto intro: sem_inv_step)

lemma sem_run_steps:
  "sem_run W w sched s0 = Some s \<Longrightarrow>
   sum_list (map (\<lambda>x. steps_taken (snd x)) (gs s))
     = sum_list (map (\<lambda>x. steps_taken (snd x)) (gs s0)) + length sched"
proof (induction sched arbitrary: s0)
  case Nil
  then show ?case by simp
next
  case (Cons a sched)
  then obtain s1 where a: "sem_step W w a s0 = Some s1" and r: "sem_run W w sched s1 = Some s"
    by (auto split: option.splits)
  from Cons.IH [OF r] sem_step_steps [OF a] show ?case by simp
qed

lemma steps_taken_le: "sum_list (map (\<lambda>x. steps_taken (snd x)) xs) \<le> 5 * length xs"
proof (induction xs)
  case Nil
  show ?case by simp
next
  case (Cons x xs)
  have "steps_taken g \<le> 5" for g by (cases g) simp_all
  from this [of "snd x"] Cons show ?case by simp
qed

lemma checks_running_le_slots:
  "length (filter (\<lambda>(p, g). g = G_Checking) xs) \<le> sum_list (map (\<lambda>x. holds_slot (snd x)) xs)"
  by (induction xs) (auto split: prod.splits)

lemma appended_final:
  "list_all (\<lambda>(p, g). g = G_Finished) xs \<Longrightarrow>
   sum_list (map (appended w) xs) = mset (filter (checkProxy w) (map fst xs))"
  by (induction xs) auto

text \<open>No run deadlocks: a state that is not final has an enabled step.\<close>

lemma first_not_started:
  fixes xs :: "(string \<times> goroutine) list"
  assumes "\<exists>x \<in> set xs. snd x = G_NotStarted"
  shows "\<exists>i < length xs. snd (xs ! i) = G_NotStarted
    \<and> list_all (\<lambda>(p, g). g \<noteq> G_NotStarted) (take i xs)"
  using assms
proof (induction xs)
  case Nil
  then show ?case by simp
next
  case (Cons x xs)
  show ?case
  proof (cases "snd x = G_NotStarted")
    case True
    then have "snd ((x # xs) ! 0) = G_NotStarted
      \<and> list_all (\<lambda>(p, g). g \<noteq> G_NotStarted) (take 0 (x # xs))"
      by simp
    then show ?thesis by blast
  next
    case False
    with Cons.prems have "\<exists>x \<in> set xs. snd x = G_NotStarted" by auto
    from Cons.IH [OF this] obtain i where i: "i < length xs" "snd (xs ! i) = G_NotStarted"
      "list_all (\<lambda>(p, g). g \<noteq> G_NotStarted) (take i xs)"
      by blast
    with False have "Suc i < length (x # xs) \<and> snd ((x # xs) ! Suc i) = G_NotStarted
      \<and> list_all (\<lambda>(p, g). g \<noteq> G_NotStarted) (take (Suc i) (x # xs))"
      by (cases x) simp
    then show ?thesis by blast
  qed
qed

lemma slots_positive:
  "y \<in> set xs \<Longrightarrow> holds_slot (snd y) = 1 \<Longrightarrow> 0 < sum_list (map (\<lambda>x. holds_slot (snd x)) xs)"
  by (induction xs) auto

lemma slots_zero:
  "\<forall>y \<in> set xs. holds_slot (snd y) = 0 \<Longrightarrow> sum_list (map (\<lambda>x. holds_slot (snd x)) xs) = 0"
  by (induction xs) auto

lemma place_nth: "i < length (gs s) \<Longrightarrow> place s i = Some (snd (gs s ! i))"
  by (simp add: place_def)

lemma sem_progress:
  assumes inv: "sem s = sum_list (map (\<lambda>x. holds_slot (snd x)) (gs s))"
    and W: "0 < W" and nf: "\<not> sem_final s"
  shows "\<exists>a s'. sem_step W w a s = Some s'"
proof (cases "\<exists>i < length (gs s). snd (gs s ! i) = G_Checking")
  case True
  then obtain i where "i < length (gs s)" "snd (gs s ! i) = G_Checking" by blast
  then have "sem_step W w (Check i) s \<noteq> None" by (simp add: place_nth)
  then show ?thesis by blast
next
  case no_checking: False
  show ?thesis
  proof (cases "\<exists>i alive. i < length (gs s) \<and> snd (gs s ! i) = G_Checked alive")
    case True
    then obtain i alive where i: "i < length (gs s)" "snd (gs s ! i) = G_Checked alive"
      by blast
    then have "gs s ! i \<in> set (gs s)" "holds_slot (snd (gs s ! i)) = 1" by simp_all
    from slots_positive [OF this] inv have "0 < sem s" by simp
    with i have "sem_step W w (Release i) s \<noteq> None" by (simp add: place_nth)
    then show ?thesis by blast
  next
    case no_checked: False
    show ?thesis
    proof (cases "\<exists>i alive. i < length (gs s) \<and> snd (gs s ! i) = G_Reporting alive")
      case True
      then obtain i alive where "i < length (gs s)" "snd (gs s ! i) = G_Reporting alive"
        by blast
      then have "sem_step W w (Report i) s \<noteq> None" by (simp add: place_nth)
      then show ?thesis by blast
    next
      case no_reporting: False
      have free: "holds_slot (snd y) = 0" if "y \<in> set (gs s)" for y
      proof -
        from that obtain i where "i < length (gs s)" "gs s ! i = y"
          by (auto simp: in_set_conv_nth)
        with no_checking no_checked show ?thesis by (cases "snd y") auto
      qed
      then have "sum_list (map (\<lambda>x. holds_slot (snd x)) (gs s)) = 0"
        by (simp add: slots_zero)
      with inv W have room: "sem s < W" by simp
      show ?thesis
      proof (cases "\<exists>i < length (gs s). snd (gs s ! i) = G_AtSem")
        case True
        then obtain i where "i < length (gs s)" "snd (gs s ! i) = G_AtSem" by blast
        with room have "sem_step W w (Acquire i) s \<noteq> None" by (simp add: place_nth)
        then show ?thesis by blast
      next
        case no_waiting: False
        from nf obtain x where x: "x \<in> set (gs s)" "snd x \<noteq> G_Finished"
          by (auto simp: sem_final_def list_all_iff)
        then obtain j where "j < length (gs s)" "gs s ! j = x"
          by (auto simp: in_set_conv_nth)
        with no_checking no_checked no_reporting no_waiting x(2)
        have "snd x = G_NotStarted" by (cases "snd x") auto
        with x(1) have "\<exists>x \<in> set (gs s). snd x = G_NotStarted" by blast
        from first_not_started [OF this] obtain i where "i < length (gs s)"
          "snd (gs s ! i) = G_NotStarted"
          "list_all (\<lambda>(p, g). g \<noteq> G_NotStarted) (take i (gs s))"
          by blast
        then have "sem_step W w (Go i) s \<noteq> None" by (simp add: place_nth)
        then show ?thesis by blast
      qed
    qed
  qed
qed


text \<open>
  Every step moves one goroutine one place further, so a run of \<open>n\<close> goroutines has at
  most \<open>5 n\<close> steps, and every run can be continued to a final state.
\<close>

lemma sem_step_length: "sem_step W w a s = Some s' \<Longrightarrow> length (gs s') = length (gs s)"
  using sem_step_args [of W w a s s'] by (metis length_map)

lemma sem_completes:
  assumes "sem s = sum_list (map (\<lambda>x. holds_slot (snd x)) (gs s))" "0 < W"
  shows "\<exists>rest s'. sem_run W w rest s = Some s' \<and> sem_final s'"
  using assms(1)
proof (induction "5 * length (gs s) - sum_list (map (\<lambda>x. steps_taken (snd x)) (gs s))"
    arbitrary: s rule: less_induct)
  case less
  show ?case
  proof (cases "sem_final s")
    case True
    then have "sem_run W w [] s = Some s \<and> sem_final s" by simp
    then show ?thesis by blast
  next
    case False
    from sem_progress [OF less.prems assms(2) False] obtain a s1
      where step: "sem_step W w a s = Some s1" by blast
    have len: "length (gs s1) = length (gs s)" by (rule sem_step_length [OF step])
    have up: "sum_list (map (\<lambda>x. steps_taken (snd x)) (gs s1))
        = Suc (sum_list (map (\<lambda>x. steps_taken (snd x)) (gs s)))"
      by (rule sem_step_steps [OF step])
    have "sum_list (map (\<lambda>x. steps_taken (snd x)) (gs s1)) \<le> 5 * length (gs s1)"
      by (rule steps_taken_le)
    with len up have
      "5 * length (gs s1) - sum_list (map (\<lambda>x. steps_taken (snd x)) (gs s1))
        < 5 * length (gs s) - sum_list (map (\<lambda>x. steps_taken (snd x)) (gs s))"
      by simp
    moreover have "sem s1 = sum_list (map (\<lambda>x. holds_slot (snd x)) (gs s1))"
      by (rule sem_step_slots [OF step less.prems])
    ultimately obtain rest s' where "sem_run W w rest s1 = Some s'" "sem_final s'"
      using less.hyps by blast
    with step have "sem_run W w (a # rest) s = Some s' \<and> sem_final s'" by simp
    then show ?thesis by blast
  qed
qed

lemma sem_run_bounded:
  assumes "sem_run W w sched (sem_init proxies) = Some s"
  shows "length sched \<le> 5 * length proxies"
proof -
  have "sum_list (map (\<lambda>x. steps_taken (snd x)) (gs (sem_init proxies))) = 0"
    by (simp add: sem_init_def comp_def)
  with sem_run_steps [OF assms] have
    "length sched = sum_list (map (\<lambda>x. steps_taken (snd x)) (gs s))" by simp
  also have "\<dots> \<le> 5 * length (gs s)" by (rule steps_taken_le)
  also have "length (gs s) = length proxies"
    using sem_inv_run [OF assms sem_inv_init]
    by (metis length_map sem_inv_def)
  finally show ?thesis .
qed

text \<open>What a complete run returns.\<close>

lemma checkProxiesConcurrently_result:
  assumes "checkProxiesConcurrently W w sched proxies = Some good"
  shows "mset good = mset (filter (checkProxy w) proxies)"
proof -
  from assms obtain s where run: "sem_run W w sched (sem_init proxies) = Some s"
    and fin: "sem_final s" and good: "good = goodProxies s"
    by (auto simp: checkProxiesConcurrently_def split: option.splits if_splits)
  from sem_inv_run [OF run sem_inv_init] have
    "map fst (gs s) = proxies" "mset (goodProxies s) = sum_list (map (appended w) (gs s))"
    by (simp_all add: sem_inv_def)
  with fin good show ?thesis
    by (simp add: sem_final_def appended_final)
qed

lemma checkProxiesConcurrently_continues:
  assumes "sem_run W w sched (sem_init proxies) = Some s" "0 < W"
  shows "\<exists>rest. checkProxiesConcurrently W w (sched @ rest) proxies \<noteq> None"
proof -
  from sem_inv_run [OF assms(1) sem_inv_init]
  have "sem s = sum_list (map (\<lambda>x. holds_slot (snd x)) (gs s))"
    by (simp add: sem_inv_def)
  from sem_completes [OF this assms(2)] obtain rest s'
    where "sem_run W w rest s = Some s'" "sem_final s'" by blast
  with assms(1) have "checkProxiesConcurrently W w (sched @ rest) proxies \<noteq> None"
    by (simp add: checkProxiesConcurrently_def sem_run_append)
  then show ?thesis by blast
qed

lemma checks_running_bounded:
  assumes "sem_run W w sched (sem_init proxies) = Some s"
  shows "checks_running s \<le> W"
proof -
  from sem_inv_run [OF assms sem_inv_init]
  have "sem s = sum_list (map (\<lambda>x. holds_slot (snd x)) (gs s))" "sem s \<le> W"
    by (simp_all add: sem_inv_def)
  with checks_running_le_slots [of "gs s"] show ?thesis
    by (simp add: checks_running_def)
qed

subsection \<open>The order of the list returned\<close>

lemma sem_run_order:
  assumes "sem_run W w sched s = Some t" "list_all (verdict_of w) (gs s)"
  shows "goodProxies t = goodProxies s
    @ filter (checkProxy w) (map (\<lambda>i. map fst (gs s) ! i) (reports sched))"
  using assms
proof (induction sched arbitrary: s)
  case Nil
  then show ?case by simp
next
  case (Cons a sched)
  from Cons.prems(1) obtain s' where step: "sem_step W w a s = Some s'"
    and run: "sem_run W w sched s' = Some t"
    by (auto split: option.splits)
  from sem_step_verdicts [OF step Cons.prems(2)] have v': "list_all (verdict_of w) (gs s')" .
  from Cons.IH [OF run v'] sem_step_args [OF step] have ih: "goodProxies t = goodProxies s'
      @ filter (checkProxy w) (map (\<lambda>i. map fst (gs s) ! i) (reports sched))"
    by simp
  from step show ?case
  proof (cases rule: sem_step_cases)
    case (report i p alive)
    from Cons.prems(2) report(2) have "verdict_of w (gs s ! i)" by (simp add: list_all_length)
    with report(3) have "alive = checkProxy w p" by simp
    moreover from report(2,3) have "map fst (gs s) ! i = p" by simp
    ultimately show ?thesis using ih report by simp
  qed (use ih in simp_all)
qed

lemma checkProxiesConcurrently_order:
  assumes "checkProxiesConcurrently W w sched proxies = Some good"
  shows "good = append_order w proxies sched"
proof -
  from assms obtain s where s: "sem_run W w sched (sem_init proxies) = Some s"
    and g: "good = goodProxies s"
    by (auto simp: checkProxiesConcurrently_def split: option.splits if_splits)
  have "list_all (verdict_of w) (gs (sem_init proxies))"
    by (simp add: sem_init_def list_all_iff)
  from sem_run_order [OF s this] g show ?thesis
    by (simp add: append_order_def sem_init_def comp_def)
qed

section \<open>Concurrent validation in the \<^verbatim>\<open>ProxyChecker\<close> program\<close>

subsection \<open>Steps\<close>


lemma pool_step_cases
  [consumes 1, case_names start send close receive exit test append]:
  assumes "pool_step M cap w a s = Some s'"
  obtains
    (start) "a = StartWorker" "starting M s" "s' = s\<lparr>workers := workers s @ [W_Receiving]\<rparr>"
  | (send) p rest where "a = SendJob" "\<not> starting M s" "unsent s = p # rest"
      "length (jobs s) < cap" "s' = s\<lparr>unsent := rest, jobs := jobs s @ [p]\<rparr>"
  | (close) "a = CloseJobs" "\<not> starting M s" "unsent s = []" "\<not> closed s"
      "s' = s\<lparr>closed := True\<rparr>"
  | (receive) i p rest where "a = Receive i" "i < length (workers s)"
      "workers s ! i = W_Receiving" "jobs s = p # rest"
      "s' = s\<lparr>workers := (workers s)[i := W_Checking p], jobs := rest\<rparr>"
  | (exit) i where "a = Exit i" "i < length (workers s)" "workers s ! i = W_Receiving"
      "jobs s = []" "closed s" "s' = s\<lparr>workers := (workers s)[i := W_Exited]\<rparr>"
  | (test) i p where "a = Test i" "i < length (workers s)" "workers s ! i = W_Checking p"
      "s' = s\<lparr>workers := (workers s)[i := W_Appending p (ProxyChecker_checkProxy w p)]\<rparr>"
  | (append) i p v where "a = Append i" "i < length (workers s)"
      "workers s ! i = W_Appending p v"
      "s' = (if v then s\<lparr>workers := (workers s)[i := W_Receiving],
                          validProxies := validProxies s @ [p]\<rparr>
             else s\<lparr>workers := (workers s)[i := W_Receiving],
                    invalidProxies := invalidProxies s @ [p]\<rparr>)"
proof (cases a)
  case StartWorker
  with assms show ?thesis by (intro start) (auto split: if_splits)
next
  case SendJob
  with assms obtain p rest where "unsent s = p # rest"
    by (auto split: if_splits list.splits)
  with SendJob assms show ?thesis by (intro send [of p rest]) (auto split: if_splits)
next
  case CloseJobs
  with assms show ?thesis by (intro close) (auto split: if_splits)
next
  case (Receive i)
  with assms obtain p rest where "jobs s = p # rest"
    by (auto split: if_splits list.splits)
  with Receive assms show ?thesis
    by (intro receive [of i p rest]) (auto simp: worker_at_def split: if_splits)
next
  case (Exit i)
  with assms show ?thesis
    by (intro exit [of i]) (auto simp: worker_at_def split: if_splits)
next
  case (Test i)
  with assms obtain p where "worker_at s i = Some (W_Checking p)"
    by (auto split: option.splits worker.splits)
  with Test assms show ?thesis
    by (intro test [of i p]) (auto simp: worker_at_def split: if_splits)
next
  case (Append i)
  with assms obtain p v where "worker_at s i = Some (W_Appending p v)"
    by (auto split: option.splits worker.splits)
  with Append assms show ?thesis
    by (intro append [of i p v]) (auto simp: worker_at_def split: if_splits)
qed

lemma pool_run_induct [consumes 1, case_names start step]:
  assumes "pool_run M cap w sched s0 = Some s" "P s0"
    "\<And>a s s'. P s \<Longrightarrow> pool_step M cap w a s = Some s' \<Longrightarrow> P s'"
  shows "P s"
  using assms(1,2)
proof (induction sched arbitrary: s0)
  case Nil
  then show ?case by simp
next
  case (Cons a sched)
  then show ?case by (auto split: option.splits intro: assms(3))
qed

lemma pool_run_append:
  "pool_run M cap w (xs @ ys) s =
     (case pool_run M cap w xs s of None \<Rightarrow> None | Some s' \<Rightarrow> pool_run M cap w ys s')"
  by (induction xs arbitrary: s) (auto split: option.splits)

subsection \<open>Invariants of a run\<close>

lemma pool_step_conserves:
  assumes step: "pool_step M cap w a s = Some s'"
  shows "mset (unsent s') + mset (jobs s') + sum_list (map in_hand (workers s'))
        + mset (validProxies s') + mset (invalidProxies s')
     = mset (unsent s) + mset (jobs s) + sum_list (map in_hand (workers s))
        + mset (validProxies s) + mset (invalidProxies s)"
  using step
proof (cases rule: pool_step_cases)
  case (receive i p rest)
  with sum_list_map_update [of i "workers s" in_hand "W_Checking p"]
  show ?thesis by simp
next
  case (exit i)
  with sum_list_map_update [of i "workers s" in_hand W_Exited]
  show ?thesis by simp
next
  case (test i p)
  with sum_list_map_update
    [of i "workers s" in_hand "W_Appending p (ProxyChecker_checkProxy w p)"]
  show ?thesis by simp
next
  case (append i p v)
  with sum_list_map_update [of i "workers s" in_hand W_Receiving]
  show ?thesis by (cases v) simp_all
qed simp_all

lemma pool_step_verdicts:
  assumes step: "pool_step M cap w a s = Some s'"
    and v: "list_all (worker_verdict w) (workers s)"
      "list_all (ProxyChecker_checkProxy w) (validProxies s)"
      "list_all (\<lambda>p. \<not> ProxyChecker_checkProxy w p) (invalidProxies s)"
  shows "list_all (worker_verdict w) (workers s')
    \<and> list_all (ProxyChecker_checkProxy w) (validProxies s')
    \<and> list_all (\<lambda>p. \<not> ProxyChecker_checkProxy w p) (invalidProxies s')"
proof -
  have upd: "list_all (worker_verdict w) ((workers s)[i := x])" if "worker_verdict w x" for i x
    using v(1) that by (auto simp: list_all_iff dest!: set_update_subset_insert [THEN subsetD])
  from step show ?thesis
  proof (cases rule: pool_step_cases)
    case (append i p b)
    from v(1) append(2) have "worker_verdict w (workers s ! i)" by (simp add: list_all_length)
    with append(3) have "b = ProxyChecker_checkProxy w p" by simp
    with append v show ?thesis by (cases b) (simp_all add: upd)
  qed (use v in \<open>simp_all add: upd\<close>)
qed

lemma pool_step_order:
  assumes step: "pool_step M cap w a s = Some s'"
    and c: "closed s \<longrightarrow> unsent s = [] \<and> \<not> starting M s"
    and e: "W_Exited \<in> set (workers s) \<longrightarrow> closed s \<and> jobs s = []"
    and l: "int (length (workers s)) \<le> max 0 M"
  shows "(closed s' \<longrightarrow> unsent s' = [] \<and> \<not> starting M s')
    \<and> (W_Exited \<in> set (workers s') \<longrightarrow> closed s' \<and> jobs s' = [])
    \<and> int (length (workers s')) \<le> max 0 M"
proof -
  have mem: "W_Exited \<in> set (workers s)" if "W_Exited \<in> set ((workers s)[i := x])"
    "x \<noteq> W_Exited" for i x
    using that set_update_subset_insert [of "workers s" i x] by auto
  from step show ?thesis
  proof (cases rule: pool_step_cases)
    case start
    with c e l show ?thesis by (auto simp: starting_def)
  next
    case (send p rest)
    with c e l show ?thesis by (auto simp: starting_def)
  next
    case close
    with c e l show ?thesis by (auto simp: starting_def)
  next
    case (receive i p rest)
    with c e l mem [of i "W_Checking p"] show ?thesis by (auto simp: starting_def)
  next
    case (exit i)
    with c e l show ?thesis by (auto simp: starting_def)
  next
    case (test i p)
    with c e l mem [of i "W_Appending p (ProxyChecker_checkProxy w p)"] show ?thesis
      by (auto simp: starting_def)
  next
    case (append i p v)
    with c e l mem [of i W_Receiving] show ?thesis
      by (cases v) (auto simp: starting_def)
  qed
qed


lemma pool_inv_init: "pool_inv M w proxies (pool_init proxies)"
  by (simp add: pool_inv_def pool_init_def)

lemma pool_inv_step:
  assumes "pool_inv M w proxies s" "pool_step M cap w a s = Some s'"
  shows "pool_inv M w proxies s'"
  using assms(1) pool_step_conserves [OF assms(2)] pool_step_verdicts [OF assms(2)]
    pool_step_order [OF assms(2)]
  unfolding pool_inv_def by simp

lemma pool_inv_run:
  "pool_run M cap w sched s0 = Some s \<Longrightarrow> pool_inv M w proxies s0 \<Longrightarrow> pool_inv M w proxies s"
  by (induction rule: pool_run_induct) (auto intro: pool_inv_step)

text \<open>Every step lowers the potential by one.\<close>

lemma pool_step_potential:
  assumes step: "pool_step M cap w a s = Some s'"
  shows "pool_potential M s = Suc (pool_potential M s')"
  using step
proof (cases rule: pool_step_cases)
  case start
  then show ?thesis by (auto simp: pool_potential_def starting_def)
next
  case (send p rest)
  then show ?thesis by (simp add: pool_potential_def)
next
  case close
  then show ?thesis by (simp add: pool_potential_def)
next
  case (receive i p rest)
  with sum_list_map_update [of i "workers s" steps_left "W_Checking p"]
  show ?thesis by (simp add: pool_potential_def)
next
  case (exit i)
  with sum_list_map_update [of i "workers s" steps_left W_Exited]
  show ?thesis by (simp add: pool_potential_def)
next
  case (test i p)
  with sum_list_map_update
    [of i "workers s" steps_left "W_Appending p (ProxyChecker_checkProxy w p)"]
  show ?thesis by (simp add: pool_potential_def)
next
  case (append i p v)
  with sum_list_map_update [of i "workers s" steps_left W_Receiving]
  show ?thesis by (cases v) (simp_all add: pool_potential_def)
qed

lemma pool_run_potential:
  "pool_run M cap w sched s0 = Some s \<Longrightarrow>
   pool_potential M s0 = pool_potential M s + length sched"
proof (induction sched arbitrary: s0)
  case Nil
  then show ?case by simp
next
  case (Cons a sched)
  then obtain s1 where a: "pool_step M cap w a s0 = Some s1"
    and r: "pool_run M cap w sched s1 = Some s"
    by (auto split: option.splits)
  from Cons.IH [OF r] pool_step_potential [OF a] show ?case by simp
qed

text \<open>No run deadlocks.\<close>

lemma worker_at_nth: "i < length (workers s) \<Longrightarrow> worker_at s i = Some (workers s ! i)"
  by (simp add: worker_at_def)

lemma pool_progress:
  assumes inv: "pool_inv M w proxies s" and nf: "\<not> pool_final s"
  shows "\<exists>a s'. pool_step M (length proxies) w a s = Some s'"
proof (cases "starting M s")
  case True
  then have "pool_step M (length proxies) w StartWorker s \<noteq> None" by simp
  then show ?thesis by blast
next
  case started: False
  show ?thesis
  proof (cases "unsent s")
    case (Cons p rest)
    from inv have "size (mset (unsent s) + mset (jobs s) + sum_list (map in_hand (workers s))
        + mset (validProxies s) + mset (invalidProxies s)) = size (mset proxies)"
      by (simp add: pool_inv_def)
    with Cons have "length (jobs s) < length proxies" by simp
    with started Cons have "pool_step M (length proxies) w SendJob s \<noteq> None" by simp
    then show ?thesis by blast
  next
    case sent: Nil
    show ?thesis
    proof (cases "closed s")
      case False
      with started sent have "pool_step M (length proxies) w CloseJobs s \<noteq> None" by simp
      then show ?thesis by blast
    next
      case True
      with nf obtain i where i: "i < length (workers s)" "workers s ! i \<noteq> W_Exited"
        by (auto simp: pool_final_def list_all_length)
      show ?thesis
      proof (cases "workers s ! i")
        case W_Receiving
        show ?thesis
        proof (cases "jobs s")
          case Nil
          with W_Receiving i True have "pool_step M (length proxies) w (Exit i) s \<noteq> None"
            by (simp add: worker_at_nth)
          then show ?thesis by blast
        next
          case (Cons p rest)
          with W_Receiving i have "pool_step M (length proxies) w (Receive i) s \<noteq> None"
            by (simp add: worker_at_nth)
          then show ?thesis by blast
        qed
      next
        case (W_Checking p)
        with i have "pool_step M (length proxies) w (Test i) s \<noteq> None"
          by (simp add: worker_at_nth)
        then show ?thesis by blast
      next
        case (W_Appending p v)
        with i have "pool_step M (length proxies) w (Append i) s \<noteq> None"
          by (simp add: worker_at_nth)
        then show ?thesis by blast
      next
        case W_Exited
        with i show ?thesis by simp
      qed
    qed
  qed
qed

lemma pool_completes:
  assumes "pool_inv M w proxies s"
  shows "\<exists>rest s'. pool_run M (length proxies) w rest s = Some s' \<and> pool_final s'"
  using assms
proof (induction "pool_potential M s" arbitrary: s rule: less_induct)
  case less
  show ?case
  proof (cases "pool_final s")
    case True
    then have "pool_run M (length proxies) w [] s = Some s \<and> pool_final s" by simp
    then show ?thesis by blast
  next
    case False
    from pool_progress [OF less.prems False] obtain a s1
      where step: "pool_step M (length proxies) w a s = Some s1" by blast
    from pool_step_potential [OF step] have "pool_potential M s1 < pool_potential M s"
      by simp
    moreover have "pool_inv M w proxies s1" by (rule pool_inv_step [OF less.prems step])
    ultimately obtain rest s' where
      "pool_run M (length proxies) w rest s1 = Some s'" "pool_final s'"
      using less.hyps by blast
    with step have "pool_run M (length proxies) w (a # rest) s = Some s' \<and> pool_final s'"
      by simp
    then show ?thesis by blast
  qed
qed

lemma pool_run_bounded:
  assumes "pool_run M cap w sched (pool_init proxies) = Some s"
  shows "length sched \<le> 2 * nat M + 4 * length proxies + 1"
  using pool_run_potential [OF assms]
  by (simp add: pool_potential_def pool_init_def)

text \<open>What a complete run leaves in the checker.\<close>

lemma in_hand_exited:
  "list_all (\<lambda>x. x = W_Exited) xs \<Longrightarrow> sum_list (map in_hand xs) = {#}"
  by (induction xs) auto

lemma validateProxies_result:
  assumes run: "validateProxies M w sched proxies = Some (valid, invalid)" and M: "0 < M"
  shows "mset valid + mset invalid = mset proxies
    \<and> list_all (ProxyChecker_checkProxy w) valid
    \<and> list_all (\<lambda>p. \<not> ProxyChecker_checkProxy w p) invalid"
proof -
  from run obtain s where
    s: "pool_run M (length proxies) w sched (pool_init proxies) = Some s"
    and fin: "pool_final s" and v: "valid = validProxies s" "invalid = invalidProxies s"
    by (auto simp: validateProxies_def split: option.splits if_splits)
  from pool_inv_run [OF s pool_inv_init] have inv: "pool_inv M w proxies s" .
  from fin have cl: "closed s" and ex: "list_all (\<lambda>x. x = W_Exited) (workers s)"
    by (simp_all add: pool_final_def)
  from inv cl have u: "unsent s = []" and "\<not> starting M s" by (simp_all add: pool_inv_def)
  with M have "workers s \<noteq> []" by (auto simp: starting_def)
  with ex have "W_Exited \<in> set (workers s)" by (cases "workers s") auto
  with inv have j: "jobs s = []" by (simp add: pool_inv_def)
  from inv u j in_hand_exited [OF ex] v show ?thesis by (simp add: pool_inv_def)
qed

lemma validateProxies_continues:
  assumes "pool_run M (length proxies) w sched (pool_init proxies) = Some s"
  shows "\<exists>rest. validateProxies M w (sched @ rest) proxies \<noteq> None"
proof -
  from pool_inv_run [OF assms pool_inv_init] have "pool_inv M w proxies s" .
  from pool_completes [OF this] obtain rest s'
    where "pool_run M (length proxies) w rest s = Some s'" "pool_final s'" by blast
  with assms have "validateProxies M w (sched @ rest) proxies \<noteq> None"
    by (simp add: validateProxies_def pool_run_append)
  then show ?thesis by blast
qed

lemma tests_running_bounded:
  assumes "pool_run M cap w sched (pool_init proxies) = Some s"
  shows "int (tests_running s) \<le> max 0 M"
proof -
  from pool_inv_run [OF assms pool_inv_init] have "int (length (workers s)) \<le> max 0 M"
    by (simp add: pool_inv_def)
  moreover have "tests_running s \<le> length (workers s)"
    by (simp add: tests_running_def)
  ultimately show ?thesis by linarith
qed

subsection \<open>The order of the two slices\<close>

lemma pool_run_order:
  assumes "pool_run M cap w sched s = Some t" "pool_inv M w proxies s"
  shows "validProxies t = validProxies s
      @ filter (ProxyChecker_checkProxy w) (appends_from M cap w sched s)
    \<and> invalidProxies t = invalidProxies s
      @ filter (\<lambda>p. \<not> ProxyChecker_checkProxy w p) (appends_from M cap w sched s)"
  using assms
proof (induction sched arbitrary: s)
  case Nil
  then show ?case by simp
next
  case (Cons a sched)
  from Cons.prems(1) obtain s' where step: "pool_step M cap w a s = Some s'"
    and run: "pool_run M cap w sched s' = Some t"
    by (auto split: option.splits)
  from pool_inv_step [OF Cons.prems(2) step] have inv': "pool_inv M w proxies s'" .
  note ih = Cons.IH [OF run inv']
  from Cons.prems(2) have v: "list_all (worker_verdict w) (workers s)"
    by (simp add: pool_inv_def)
  from step show ?case
  proof (cases rule: pool_step_cases)
    case (append i p v')
    from v append(2) have "worker_verdict w (workers s ! i)" by (simp add: list_all_length)
    with append(3) have "v' = ProxyChecker_checkProxy w p" by simp
    moreover from append(2,3) have "worker_at s i = Some (W_Appending p v')"
      by (simp add: worker_at_def)
    ultimately show ?thesis using ih step append by simp
  qed (use ih step in simp_all)
qed

lemma validateProxies_order:
  assumes "validateProxies M w sched proxies = Some (valid, invalid)"
  shows "valid = filter (ProxyChecker_checkProxy w) (pool_appends M w sched proxies)"
    and "invalid = filter (\<lambda>p. \<not> ProxyChecker_checkProxy w p) (pool_appends M w sched proxies)"
proof -
  from assms obtain s where
    s: "pool_run M (length proxies) w sched (pool_init proxies) = Some s"
    and v: "valid = validProxies s" "invalid = invalidProxies s"
    by (auto simp: validateProxies_def split: option.splits if_splits)
  from pool_run_order [OF s pool_inv_init] v
  show "valid = filter (ProxyChecker_checkProxy w) (pool_appends M w sched proxies)"
    and "invalid = filter (\<lambda>p. \<not> ProxyChecker_checkProxy w p) (pool_appends M w sched proxies)"
    by (simp_all add: pool_appends_def pool_init_def)
qed

lemma mset_filter_both:
  "mset (filter P xs) + mset (filter (\<lambda>x. \<not> P x) xs) = mset xs"
  by (induction xs) simp_all

lemma validateProxies_appends_all:
  assumes "validateProxies M w sched proxies = Some (valid, invalid)" "0 < M"
  shows "mset (pool_appends M w sched proxies) = mset proxies"
proof -
  from validateProxies_result [OF assms] have "mset valid + mset invalid = mset proxies"
    by simp
  with validateProxies_order [OF assms(1)]
    mset_filter_both [of "ProxyChecker_checkProxy w" "pool_appends M w sched proxies"]
  show ?thesis by simp
qed

section \<open>The pipeline of the worker program\<close>


lemma pipe_step_checkers:
  assumes "pipe_step N w scanned a s = Some s'" "length (checkers s) \<le> N"
  shows "length (checkers s') \<le> N"
proof (cases a)
  case (Scrape k)
  with assms show ?thesis
    by (auto split: option.splits list.splits if_splits)
next
  case (Take i)
  with assms show ?thesis by (auto split: list.splits if_splits)
next
  case (Probe i)
  with assms show ?thesis by (auto split: option.splits checker.splits)
next
  case (Deliver i)
  with assms show ?thesis by (auto split: option.splits checker.splits if_splits)
next
  case Collect
  with assms show ?thesis by (auto split: option.splits list.splits)
qed (use assms in \<open>auto split: if_splits\<close>)

lemma pipe_run_checkers:
  "pipe_run N w scanned sched s0 = Some s \<Longrightarrow> length (checkers s0) \<le> N \<Longrightarrow>
   length (checkers s) \<le> N"
proof (induction sched arbitrary: s0)
  case Nil
  then show ?case by simp
next
  case (Cons a sched)
  then obtain s1 where a: "pipe_step N w scanned a s0 = Some s1"
    and r: "pipe_run N w scanned sched s1 = Some s"
    by (auto split: option.splits)
  from Cons.IH [OF r pipe_step_checkers [OF a Cons.prems(2)]] show ?case .
qed

lemma probes_running_bounded:
  assumes "pipe_run N w scanned sched pipe_init = Some s"
  shows "probes_running s \<le> N"
proof -
  from pipe_run_checkers [OF assms] have "length (checkers s) \<le> N"
    by (simp add: pipe_init_def)
  moreover have "probes_running s \<le> length (checkers s)"
    by (simp add: probes_running_def)
  ultimately show ?thesis by linarith
qed


text \<open>With the pool of the code: never more than 150 probes at once.\<close>

lemma probes_running_workerCount:
  assumes "pipe_run workerCount w scanned sched pipe_init = Some s"
  shows "probes_running s \<le> 150"
  using probes_running_bounded [OF assms] by (simp add: workerCount_def)
section \<open>The bound of the pool, and the partition\<close>


text \<open>
  Claim C4. At no moment of a run are more checks inside their probe than the bound of
  the pool: the capacity \<open>W\<close> of the semaphore channel in \<^verbatim>\<open>deep.go\<close> (200 there), the
  number \<open>N\<close> of checkers in the worker program (150 there), \<^verbatim>\<open>maxWorkers\<close> in the
  \<^verbatim>\<open>ProxyChecker\<close> program (100 there). It holds for every bound, every list of
  candidates and every schedule, so also for a pool of 5 with 100 candidates pending.
\<close>

theorem probes_bounded_by_pool:
  "(sem_run W w sched (sem_init proxies) = Some s \<longrightarrow> checks_running s \<le> W)
   \<and> (pipe_run N w scanned sched' pipe_init = Some t \<longrightarrow> probes_running t \<le> N)
   \<and> (pool_run M cap w sched'' (pool_init ps) = Some u \<longrightarrow> int (tests_running u) \<le> max 0 M)"
  using checks_running_bounded [of W w sched proxies s]
    probes_running_bounded [of N w scanned sched' t]
    tests_running_bounded [of M cap w sched'' ps u]
  by blast


text \<open>The example run of each program: a pool of two, three candidates.\<close>

theorem probes_bounded_by_pool_witness:
  "sem_run 2 (world_failing []) [Go 0, Go 1, Go 2, Acquire 0, Acquire 1]
      (sem_init [''a'', ''b'', ''c''])
     = Some \<lparr>gs = [(''a'', G_Checking), (''b'', G_Checking), (''c'', G_AtSem)],
             sem = 2, goodProxies = []\<rparr>
   \<and> checks_running
        \<lparr>gs = [(''a'', G_Checking), (''b'', G_Checking), (''c'', G_AtSem)],
         sem = 2, goodProxies = []\<rparr> \<le> 2
   \<and> sem_step 2 (world_failing []) (Acquire 2)
        \<lparr>gs = [(''a'', G_Checking), (''b'', G_Checking), (''c'', G_AtSem)],
         sem = 2, goodProxies = []\<rparr> = None
   \<and> pipe_run 2 (world_failing []) [[''a'', ''b'', ''c'']]
      [StartChecker, StartChecker, StartScraper, Scrape 0, Scrape 0, Scrape 0, Take 0, Take 1]
      pipe_init
     = Some \<lparr>checkers = [C_Probing ''a'', C_Probing ''b''], scrapers = [[]],
             scrapedProxies = [''c''], scraped_closed = False, liveProxies = [],
             live_closed = False, uniqueProxies = Map.empty, written = []\<rparr>
   \<and> probes_running
        \<lparr>checkers = [C_Probing ''a'', C_Probing ''b''], scrapers = [[]],
         scrapedProxies = [''c''], scraped_closed = False, liveProxies = [],
         live_closed = False, uniqueProxies = Map.empty, written = []\<rparr> \<le> 2
   \<and> pool_run 2 3 (world_failing [])
      [StartWorker, StartWorker, SendJob, SendJob, SendJob, Receive 0, Receive 1]
      (pool_init [\<lparr>IP = ''a'', Port = ''1'', Full = ''a:1''\<rparr>,
                  \<lparr>IP = ''b'', Port = ''1'', Full = ''b:1''\<rparr>,
                  \<lparr>IP = ''c'', Port = ''1'', Full = ''c:1''\<rparr>])
     = Some \<lparr>workers = [W_Checking \<lparr>IP = ''a'', Port = ''1'', Full = ''a:1''\<rparr>,
                         W_Checking \<lparr>IP = ''b'', Port = ''1'', Full = ''b:1''\<rparr>],
             unsent = [], jobs = [\<lparr>IP = ''c'', Port = ''1'', Full = ''c:1''\<rparr>],
             closed = False, validProxies = [], invalidProxies = []\<rparr>
   \<and> int (tests_running
        \<lparr>workers = [W_Checking \<lparr>IP = ''a'', Port = ''1'', Full = ''a:1''\<rparr>,
                    W_Checking \<lparr>IP = ''b'', Port = ''1'', Full = ''b:1''\<rparr>],
         unsent = [], jobs = [\<lparr>IP = ''c'', Port = ''1'', Full = ''c:1''\<rparr>],
         closed = False, validProxies = [], invalidProxies = []\<rparr>) \<le> max 0 2"
proof -
  define s1 where "s1 = \<lparr>gs = [(''a'', G_Checking), (''b'', G_Checking), (''c'', G_AtSem)],
    sem = 2, goodProxies = []\<rparr>"
  define s2 where "s2 = \<lparr>checkers = [C_Probing ''a'', C_Probing ''b''], scrapers = [[]],
    scrapedProxies = [''c''], scraped_closed = False, liveProxies = [],
    live_closed = False, uniqueProxies = Map.empty, written = []\<rparr>"
  define s3 where "s3 = \<lparr>workers = [W_Checking \<lparr>IP = ''a'', Port = ''1'', Full = ''a:1''\<rparr>,
      W_Checking \<lparr>IP = ''b'', Port = ''1'', Full = ''b:1''\<rparr>],
    unsent = [], jobs = [\<lparr>IP = ''c'', Port = ''1'', Full = ''c:1''\<rparr>],
    closed = False, validProxies = [], invalidProxies = []\<rparr>"
  define sched1 where "sched1 = [Go 0, Go 1, Go 2, Acquire 0, Acquire 1]"
  define sched2 where "sched2 =
    [StartChecker, StartChecker, StartScraper, Scrape 0, Scrape 0, Scrape 0, Take 0, Take 1]"
  define sched3 where "sched3 =
    [StartWorker, StartWorker, SendJob, SendJob, SendJob, Receive 0, Receive 1]"
  define ps where "ps = [\<lparr>IP = ''a'', Port = ''1'', Full = ''a:1''\<rparr>,
    \<lparr>IP = ''b'', Port = ''1'', Full = ''b:1''\<rparr>, \<lparr>IP = ''c'', Port = ''1'', Full = ''c:1''\<rparr>]"
  have r1: "sem_run 2 (world_failing []) sched1 (sem_init [''a'', ''b'', ''c'']) = Some s1"
    by (simp add: s1_def sched1_def sem_init_def place_def move_def numeral_2_eq_2)
  have b1: "sem_step 2 (world_failing []) (Acquire 2) s1 = None"
    by (simp add: s1_def place_def)
  have r2: "pipe_run 2 (world_failing []) [[''a'', ''b'', ''c'']] sched2 pipe_init = Some s2"
    by (simp add: s2_def sched2_def pipe_init_def checker_at_def scraper_at_def TrimSpace_def
        ascii_space_def wide_space2_def wide_space3_def numeral_2_eq_2)
  have r3: "pool_run 2 3 (world_failing []) sched3 (pool_init ps) = Some s3"
    by (simp add: s3_def sched3_def ps_def pool_init_def worker_at_def starting_def)
  note bound = probes_bounded_by_pool
    [of 2 "world_failing []" sched1 "[''a'', ''b'', ''c'']" s1 2 "[[''a'', ''b'', ''c'']]"
      sched2 s2 2 3 sched3 ps s3]
  from bound r1 have c1: "checks_running s1 \<le> 2" by blast
  from bound r2 have c2: "probes_running s2 \<le> 2" by blast
  from bound r3 have c3: "int (tests_running s3) \<le> max 0 2" by blast
  from r1 b1 r2 r3 c1 c2 c3 show ?thesis
    unfolding s1_def s2_def s3_def sched1_def sched2_def sched3_def ps_def
    by (intro conjI)
qed

subsection \<open>The live and the dead\<close>

lemma live_dead_disjoint:
  assumes "mset good = mset (filter P proxies)" "distinct proxies"
  shows "distinct good \<and> set good \<inter> set (filter (\<lambda>p. \<not> P p) proxies) = {}"
proof -
  from assms(2) have "distinct (filter P proxies)" by simp
  with assms(1) have "distinct good" by (metis mset_eq_imp_distinct_iff)
  moreover from assms(1) have "set good = set (filter P proxies)" by (rule mset_eq_setD)
  ultimately show ?thesis by auto
qed

lemma valid_invalid_disjoint:
  assumes "mset valid + mset invalid = mset ps" "distinct (map Full ps)"
  shows "distinct (map Full valid) \<and> distinct (map Full invalid)
    \<and> Full ` set valid \<inter> Full ` set invalid = {}"
proof -
  from assms(1) have "mset (map Full (valid @ invalid)) = mset (map Full ps)"
    by (metis mset_append mset_map)
  with assms(2) have "distinct (map Full (valid @ invalid))"
    by (metis mset_eq_imp_distinct_iff)
  then show ?thesis by simp
qed

lemma count_all:
  assumes "mset good = mset (filter P proxies)"
  shows "int (length proxies) - int (length good) = int (length (filter (\<lambda>p. \<not> P p) proxies))"
proof -
  from assms have "length good = length (filter P proxies)" by (metis size_mset)
  with sum_length_filter_compl [of P proxies] show ?thesis by simp
qed

text \<open>
  Claim C2. Every admitted candidate gets exactly one verdict, and the live and the
  dead partition the admitted candidates.
  \<^item> In \<^verbatim>\<open>deep.go\<close>, every complete run of \<^verbatim>\<open>checkProxiesConcurrently\<close> returns the
    candidates that \<^verbatim>\<open>checkProxy\<close> accepts, each as often as it was admitted; the dead
    count \<^verbatim>\<open>len(allProxies) - len(goodProxies)\<close> is the number of the others; when the
    candidates are distinct, no address is both live and dead.
  \<^item> In the \<^verbatim>\<open>ProxyChecker\<close> program with at least one worker, every complete run of
    \<^verbatim>\<open>validateProxies\<close> leaves each candidate in exactly one of \<^verbatim>\<open>validProxies\<close> and
    \<^verbatim>\<open>invalidProxies\<close>, the first holding the accepted ones.
  \<^item> Every run can be continued to a complete one and has a bounded number of steps, so
    the verdicts are reached.
\<close>

theorem live_dead_partition:
  "(checkProxiesConcurrently W w sched proxies = Some good \<longrightarrow>
      mset good = mset (filter (checkProxy w) proxies)
      \<and> int (length proxies) - int (length good)
          = int (length (filter (\<lambda>p. \<not> checkProxy w p) proxies))
      \<and> (distinct proxies \<longrightarrow>
            distinct good
            \<and> set good \<inter> set (filter (\<lambda>p. \<not> checkProxy w p) proxies) = {}))
   \<and> (validateProxies M w sched' ps = Some (valid, invalid) \<and> 0 < M \<longrightarrow>
      mset valid + mset invalid = mset ps
      \<and> length valid + length invalid = length ps
      \<and> list_all (ProxyChecker_checkProxy w) valid
      \<and> list_all (\<lambda>p. \<not> ProxyChecker_checkProxy w p) invalid
      \<and> (distinct (map Full ps) \<longrightarrow>
            distinct (map Full valid) \<and> distinct (map Full invalid)
            \<and> Full ` set valid \<inter> Full ` set invalid = {}))
   \<and> (sem_run W w sched (sem_init proxies) = Some s \<and> 0 < W \<longrightarrow>
      (\<exists>rest. checkProxiesConcurrently W w (sched @ rest) proxies \<noteq> None)
      \<and> length sched \<le> 5 * length proxies)
   \<and> (pool_run M (length ps) w sched' (pool_init ps) = Some t \<longrightarrow>
      (\<exists>rest. validateProxies M w (sched' @ rest) ps \<noteq> None)
      \<and> length sched' \<le> 2 * nat M + 4 * length ps + 1)"
proof -
  have a: "mset good = mset (filter (checkProxy w) proxies)
      \<and> int (length proxies) - int (length good)
          = int (length (filter (\<lambda>p. \<not> checkProxy w p) proxies))
      \<and> (distinct proxies \<longrightarrow>
            distinct good
            \<and> set good \<inter> set (filter (\<lambda>p. \<not> checkProxy w p) proxies) = {})"
    if "checkProxiesConcurrently W w sched proxies = Some good"
    using checkProxiesConcurrently_result [OF that] live_dead_disjoint count_all by blast
  have b: "mset valid + mset invalid = mset ps
      \<and> length valid + length invalid = length ps
      \<and> list_all (ProxyChecker_checkProxy w) valid
      \<and> list_all (\<lambda>p. \<not> ProxyChecker_checkProxy w p) invalid
      \<and> (distinct (map Full ps) \<longrightarrow>
            distinct (map Full valid) \<and> distinct (map Full invalid)
            \<and> Full ` set valid \<inter> Full ` set invalid = {})"
    if "validateProxies M w sched' ps = Some (valid, invalid)" "0 < M"
  proof -
    from validateProxies_result [OF that] have r: "mset valid + mset invalid = mset ps"
      "list_all (ProxyChecker_checkProxy w) valid"
      "list_all (\<lambda>p. \<not> ProxyChecker_checkProxy w p) invalid"
      by simp_all
    from r(1) have "size (mset valid + mset invalid) = size (mset ps)" by simp
    then have "length valid + length invalid = length ps" by simp
    with r valid_invalid_disjoint [OF r(1)] show ?thesis by blast
  qed
  have c: "(\<exists>rest. checkProxiesConcurrently W w (sched @ rest) proxies \<noteq> None)
      \<and> length sched \<le> 5 * length proxies"
    if "sem_run W w sched (sem_init proxies) = Some s" "0 < W"
    using checkProxiesConcurrently_continues [OF that] sem_run_bounded [OF that(1)] by blast
  have d: "(\<exists>rest. validateProxies M w (sched' @ rest) ps \<noteq> None)
      \<and> length sched' \<le> 2 * nat M + 4 * length ps + 1"
    if "pool_run M (length ps) w sched' (pool_init ps) = Some t"
    using validateProxies_continues [OF that] pool_run_bounded [OF that] by blast
  from a b c d show ?thesis by blast
qed



text \<open>
  The scenario of the specification: two sources each yield \<^verbatim>\<open>1.2.3.4:8080\<close> twice and
  \<^verbatim>\<open>5.6.7.8:3128\<close> once; the first address answers, the second does not.
\<close>

theorem live_dead_partition_witness:
  "checkProxiesConcurrently 2 (world_only [''1.2.3.4:8080''])
      [Go 0, Go 1, Acquire 1, Acquire 0, Check 1, Check 0, Release 1, Report 1,
       Release 0, Report 0]
      (deduplicateProxies
        [''1.2.3.4:8080'', ''1.2.3.4:8080'', ''5.6.7.8:3128'',
         ''1.2.3.4:8080'', ''1.2.3.4:8080'', ''5.6.7.8:3128''])
     = Some [''1.2.3.4:8080'']
   \<and> filter (\<lambda>p. \<not> checkProxy (world_only [''1.2.3.4:8080'']) p)
       (deduplicateProxies
        [''1.2.3.4:8080'', ''1.2.3.4:8080'', ''5.6.7.8:3128'',
         ''1.2.3.4:8080'', ''1.2.3.4:8080'', ''5.6.7.8:3128''])
     = [''5.6.7.8:3128'']
   \<and> set [''1.2.3.4:8080''] \<inter> set [''5.6.7.8:3128''] = {}
   \<and> validateProxies 2 (world_only [''1.2.3.4:8080''])
      [StartWorker, StartWorker, SendJob, SendJob, CloseJobs, Receive 1, Receive 0,
       Test 0, Test 1, Append 0, Append 1, Exit 0, Exit 1]
      [\<lparr>IP = ''1.2.3.4'', Port = ''8080'', Full = ''1.2.3.4:8080''\<rparr>,
       \<lparr>IP = ''5.6.7.8'', Port = ''3128'', Full = ''5.6.7.8:3128''\<rparr>]
     = Some ([\<lparr>IP = ''1.2.3.4'', Port = ''8080'', Full = ''1.2.3.4:8080''\<rparr>],
             [\<lparr>IP = ''5.6.7.8'', Port = ''3128'', Full = ''5.6.7.8:3128''\<rparr>])
   \<and> Full ` set [\<lparr>IP = ''1.2.3.4'', Port = ''8080'', Full = ''1.2.3.4:8080''\<rparr>]
       \<inter> Full ` set [\<lparr>IP = ''5.6.7.8'', Port = ''3128'', Full = ''5.6.7.8:3128''\<rparr>] = {}"
proof -
  define a where "a = ''1.2.3.4:8080''"
  define b where "b = ''5.6.7.8:3128''"
  define w where "w = world_only [a]"
  define pa where "pa = \<lparr>IP = ''1.2.3.4'', Port = ''8080'', Full = a\<rparr>"
  define pb where "pb = \<lparr>IP = ''5.6.7.8'', Port = ''3128'', Full = b\<rparr>"
  define sched where "sched = [Go 0, Go 1, Acquire 1, Acquire 0, Check 1, Check 0,
    Release 1, Report 1, Release 0, Report 0]"
  define sched' where "sched' = [StartWorker, StartWorker, SendJob, SendJob, CloseJobs,
    Receive 1, Receive 0, Test 0, Test 1, Append 0, Append 1, Exit 0, Exit 1]"
  define fin where "fin = \<lparr>gs = [(a, G_Finished), (b, G_Finished)], sem = 0, goodProxies = [a]\<rparr>"
  define fin' where "fin' = \<lparr>workers = [W_Exited, W_Exited], unsent = [], jobs = [],
    closed = True, validProxies = [pa], invalidProxies = [pb]\<rparr>"
  have ab: "a \<noteq> b" "Full pa = a" "Full pb = b"
    by (simp_all add: a_def b_def pa_def pb_def)
  have dd: "deduplicateProxies [a, a, b, a, a, b] = [a, b]"
    using ab by (simp add: deduplicateProxies_def)
  have parse: "url_Parse w x = Inr x" for x
    by (simp add: w_def world_only_def)
  have net: "http_Do w (''http://'' @ a) t = Inr \<lparr>StatusCode = 200, Body = Inr ''ok''\<rparr>"
    "http_Do w (''http://'' @ b) t = Inl (Error ''connection refused'')" for t
    using ab by (simp_all add: w_def world_only_def)
  have chk: "checkProxy w a" "\<not> checkProxy w b"
    by (simp_all add: checkProxy_def parse net checkWithClient_def targets_def
        del: append.simps)
  have trim: "TrimSpace ''ok'' \<noteq> []"
    by (simp add: TrimSpace_def ascii_space_def wide_space2_def wide_space3_def)
  have chk': "ProxyChecker_checkProxy w pa" "\<not> ProxyChecker_checkProxy w pb"
    using trim
    by (simp_all add: ProxyChecker_checkProxy_def testProxyConnection_def client_Do_via_def
        parse net ab testURLs_def del: append.simps)
  have run: "sem_run 2 w sched (sem_init [a, b]) = Some fin"
    by (simp add: sched_def fin_def sem_init_def place_def move_def chk)
  then have good: "checkProxiesConcurrently 2 w sched [a, b] = Some [a]"
    by (simp add: checkProxiesConcurrently_def fin_def sem_final_def)
  have run': "pool_run 2 (length [pa, pb]) w sched' (pool_init [pa, pb]) = Some fin'"
    by (simp add: sched'_def fin'_def pool_init_def worker_at_def starting_def chk')
  then have res: "validateProxies 2 w sched' [pa, pb] = Some ([pa], [pb])"
    by (simp add: validateProxies_def fin'_def pool_final_def)
  note part = live_dead_partition
    [of 2 w sched "[a, b]" "[a]" 2 sched' "[pa, pb]" "[pa]" "[pb]" fin fin']
  have dist: "distinct [a, b]" "distinct (map Full [pa, pb])" using ab by simp_all
  from part good dist have
    "set [a] \<inter> set (filter (\<lambda>p. \<not> checkProxy w p) [a, b]) = {}" by blast
  moreover have dead: "filter (\<lambda>p. \<not> checkProxy w p) [a, b] = [b]" using chk by simp
  ultimately have d1: "set [a] \<inter> set [b] = {}" by simp
  from part res dist have d2: "Full ` set [pa] \<inter> Full ` set [pb] = {}" by simp
  from good have good': "checkProxiesConcurrently 2 w sched
      (deduplicateProxies [a, a, b, a, a, b]) = Some [a]"
    by (simp only: dd)
  from dead have dead': "filter (\<lambda>p. \<not> checkProxy w p)
      (deduplicateProxies [a, a, b, a, a, b]) = [b]"
    by (simp only: dd)
  from good' dead' d1 res d2 show ?thesis
    unfolding w_def sched_def sched'_def pa_def pb_def a_def b_def
    by (intro conjI)
qed



section \<open>From harvest to file\<close>

lemma firsts_from_Nil_iff: "firsts_from key {} xs = [] \<longleftrightarrow> xs = []"
  by (cases xs) simp_all

lemma deduplicateProxies_Nil_iff: "deduplicateProxies xs = [] \<longleftrightarrow> xs = []"
  by (simp add: deduplicateProxies_firsts firsts_from_Nil_iff)

lemma removeDuplicateProxies_Nil_iff: "removeDuplicateProxies ps = [] \<longleftrightarrow> ps = []"
  by (simp add: removeDuplicateProxies_firsts firsts_from_Nil_iff)

lemma scrapeAllProxies_loop_harvested:
  "fst (scrapeAllProxies_loop scrape order (acc, lg)) = acc @ harvested scrape order"
  by (induction order arbitrary: acc lg) (auto simp: harvested_def split: sum.splits)

lemma scrapeAllProxies_harvested:
  "fst (scrapeAllProxies scrape order) = deduplicateProxies (harvested scrape order)"
  using scrapeAllProxies_loop_harvested [of scrape order "[]" "[]"]
  by (auto simp: scrapeAllProxies_def split: prod.splits)

lemma ProxyChecker_loop_harvested:
  "\<exists>lg'. ProxyChecker_scrapeAllProxies_loop ParseIP get order (acc, lg)
     = Returns (acc @ ProxyChecker_harvested ParseIP get order, lg')"
proof (induction order arbitrary: acc lg)
  case Nil
  show ?case by (simp add: ProxyChecker_harvested_def)
next
  case (Cons src order)
  have np: "fst (scrapeProxiesFromURL ParseIP (get (URL src))) \<noteq> Panics"
    by (rule scrapeProxiesFromURL_no_panic)
  show ?case
  proof (cases "fst (scrapeProxiesFromURL ParseIP (get (URL src)))")
    case Panics
    with np show ?thesis by simp
  next
    case (Returns r)
    show ?thesis
    proof (cases r)
      case (Inl e)
      with Returns Cons.IH [of acc] show ?thesis
        by (simp add: ProxyChecker_harvested_def)
    next
      case (Inr proxies)
      with Returns Cons.IH [of "acc @ proxies"] show ?thesis
        by (simp add: ProxyChecker_harvested_def)
    qed
  qed
qed

lemma ProxyChecker_scrapeAllProxies_harvested:
  "\<exists>lg. ProxyChecker_scrapeAllProxies ParseIP get order
     = Returns (removeDuplicateProxies (ProxyChecker_harvested ParseIP get order), lg)"
proof -
  from ProxyChecker_loop_harvested [of ParseIP get order "[]" "[]"] obtain lg' where
    "ProxyChecker_scrapeAllProxies_loop ParseIP get order ([], [])
      = Returns (ProxyChecker_harvested ParseIP get order, lg')"
    by auto
  then show ?thesis by (simp add: ProxyChecker_scrapeAllProxies_def)
qed


lemma main_empty:
  assumes "harvested scrape order = []"
  shows "main w d scrape order sched fs =
    Some \<lparr>exit_status = 0,
           logged = [''Memulai proses scraping proxy...''] @ snd (scrapeAllProxies scrape order)
                    @ [''Berhasil mengumpulkan %d proxy'',
                       ''Tidak ada proxy yang ditemukan, keluar...''],
           files = fs\<rparr>"
proof -
  from assms have "fst (scrapeAllProxies scrape order) = []"
    by (simp add: scrapeAllProxies_harvested deduplicateProxies_Nil_iff)
  then show ?thesis
    by (cases "scrapeAllProxies scrape order") (simp add: main_def)
qed

lemma main_exit_status:
  "main w d scrape order sched fs = Some r \<Longrightarrow> exit_status r = 0"
  by (auto simp: main_def Let_def split: prod.splits if_splits option.splits)

lemma ProxyChecker_main_empty:
  assumes "ProxyChecker_harvested ParseIP get order = []"
  shows "\<exists>lg. ProxyChecker_main w d ParseIP get order sched fs =
    Some \<lparr>exit_status = 1,
           logged = [''Memulai Proxy Scraper dan Validator''] @ lg
                    @ [''Tidak ada proxy yang berhasil di-scrape''],
           files = fs, left_valid = [], left_invalid = []\<rparr>"
proof -
  from ProxyChecker_scrapeAllProxies_harvested [of ParseIP get order] assms obtain lg where
    "ProxyChecker_scrapeAllProxies ParseIP get order = Returns ([], lg)"
    by (auto simp: removeDuplicateProxies_Nil_iff)
  then show ?thesis by (simp add: ProxyChecker_main_def)
qed

lemma ProxyChecker_main_exit_status:
  assumes "ProxyChecker_main w d ParseIP get order sched fs = Some r"
  shows "exit_status r = (if ProxyChecker_harvested ParseIP get order = [] then 1 else 0)"
proof -
  from ProxyChecker_scrapeAllProxies_harvested [of ParseIP get order] obtain lg where
    h: "ProxyChecker_scrapeAllProxies ParseIP get order
      = Returns (removeDuplicateProxies (ProxyChecker_harvested ParseIP get order), lg)"
    by blast
  show ?thesis
  proof (cases "ProxyChecker_harvested ParseIP get order = []")
    case True
    with ProxyChecker_main_empty [OF True, of w d sched fs] assms show ?thesis by auto
  next
    case False
    then have "removeDuplicateProxies (ProxyChecker_harvested ParseIP get order) \<noteq> []"
      by (simp add: removeDuplicateProxies_Nil_iff)
    with assms h False show ?thesis
      by (auto simp: ProxyChecker_main_def Let_def split: option.splits prod.splits)
  qed
qed

text \<open>
  Claim C7, as amended. When no candidate is harvested across the sources, both
  programs stop before validation with their message, and touch no file.
  \<^item> The \<^verbatim>\<open>ProxyChecker\<close> program ends by \<^verbatim>\<open>log.Fatal\<close>, with exit status 1 and both slices
    empty; in every other run its exit status is 0: a source that fails is logged and
    skipped, and so is a file that cannot be written.
  \<^item> \<^verbatim>\<open>deep.go\<close> logs and returns from \<^verbatim>\<open>main\<close>: its exit status is 0, as in every run.
\<close>

theorem empty_harvest_outcome:
  "(ProxyChecker_harvested ParseIP get order = [] \<longrightarrow>
      (\<exists>lg. ProxyChecker_main w d ParseIP get order sched fs =
         Some \<lparr>exit_status = 1,
                logged = [''Memulai Proxy Scraper dan Validator''] @ lg
                         @ [''Tidak ada proxy yang berhasil di-scrape''],
                files = fs, left_valid = [], left_invalid = []\<rparr>))
   \<and> (ProxyChecker_main w d ParseIP get order sched fs = Some r \<longrightarrow>
      (exit_status r = 1 \<and> ProxyChecker_harvested ParseIP get order = []
       \<or> exit_status r = 0 \<and> ProxyChecker_harvested ParseIP get order \<noteq> []))
   \<and> (harvested scrape order' = [] \<longrightarrow>
      main w d scrape order' sched' fs =
        Some \<lparr>exit_status = 0,
               logged = [''Memulai proses scraping proxy...'']
                        @ snd (scrapeAllProxies scrape order')
                        @ [''Berhasil mengumpulkan %d proxy'',
                           ''Tidak ada proxy yang ditemukan, keluar...''],
               files = fs\<rparr>)
   \<and> (main w d scrape order' sched' fs = Some r' \<longrightarrow> exit_status r' = 0)"
  using ProxyChecker_main_empty [of ParseIP get order w d sched fs]
    ProxyChecker_main_exit_status [of w d ParseIP get order sched fs r]
    main_empty [of scrape order' w d sched' fs]
    main_exit_status [of w d scrape order' sched' fs r']
  by (simp split: if_splits)


lemma scrapeProxiesFromURL_all_fail:
  assumes "\<And>i. get i = Inl e"
  shows "fst (scrapeProxiesFromURL ParseIP get)
    = Returns (Inl (Wrap ''failed to fetch after 3 attempts'' e))"
proof -
  from assms have "\<not> takes_break get i" for i by (simp add: takes_break_iff)
  then have "scrape_loop get 0 fetch_start
      = \<lparr>resp = None, err = Some e, requests = 3, slept = [1, 2, 3]\<rparr>"
    using assms by (simp add: scrape_loop_cases)
  then show ?thesis
    by (simp add: scrapeProxiesFromURL_def Let_def scrapeProxiesFromURL_result_def)
qed

lemma match_at_example: "match_at ''1.2.3.4:8080'' = Some (''1.2.3.4'', ''8080'', [])"
  by (simp add: match_at_def digits1_def is_digit_def eval_nat_numeral)

lemma parseProxies_example:
  "parseProxies net_ParseIP ''1.2.3.4:8080''
     = [\<lparr>IP = ''1.2.3.4'', Port = ''8080'', Full = ''1.2.3.4:8080''\<rparr>]"
proof -
  have "FindAllStringSubmatch ''1.2.3.4:8080'' = [(''1.2.3.4'', ''8080'')]"
    by (simp add: match_at_example)
  moreover have "isValidPort ''8080''" by (simp add: isValidPort_def)
  ultimately show ?thesis
    by (simp add: parseProxies_def net_ParseIP_1234 isValidIP_def
        del: FindAllStringSubmatch.simps)
qed

text \<open>
  Two harvests: every source times out; every source answers with the one address
  \<^verbatim>\<open>1.2.3.4:8080\<close> (in \<^verbatim>\<open>deep.go\<close>: with that address twice and \<^verbatim>\<open>5.6.7.8:3128\<close>), and
  the first address is live.
\<close>

theorem empty_harvest_outcome_witness:
  "ProxyChecker_harvested net_ParseIP (\<lambda>url i. Inl (Error ''timeout'')) ProxyChecker_proxySources
     = []
   \<and> (\<exists>lg. ProxyChecker_main (world_failing []) disk_ok net_ParseIP
         (\<lambda>url i. Inl (Error ''timeout'')) ProxyChecker_proxySources []
         [''claude_valid_proxies.txt'' \<mapsto> ''old'']
       = Some \<lparr>exit_status = 1,
               logged = [''Memulai Proxy Scraper dan Validator''] @ lg
                        @ [''Tidak ada proxy yang berhasil di-scrape''],
               files = [''claude_valid_proxies.txt'' \<mapsto> ''old''],
               left_valid = [], left_invalid = []\<rparr>)
   \<and> (\<exists>sched r. ProxyChecker_main (world_only [''1.2.3.4:8080'']) disk_ok net_ParseIP
         (\<lambda>url. source_first) ProxyChecker_proxySources sched Map.empty
       = Some r \<and> exit_status r = 0
         \<and> left_valid r = [\<lparr>IP = ''1.2.3.4'', Port = ''8080'', Full = ''1.2.3.4:8080''\<rparr>])
   \<and> harvested (\<lambda>url. Inl (Error ''timeout'')) proxySources = []
   \<and> main (world_failing []) disk_ok (\<lambda>url. Inl (Error ''timeout''))
        proxySources [] [goodProxiesFile \<mapsto> ''old'']
     = Some \<lparr>exit_status = 0,
             logged = [''Memulai proses scraping proxy...'']
                      @ snd (scrapeAllProxies (\<lambda>url. Inl (Error ''timeout'')) proxySources)
                      @ [''Berhasil mengumpulkan %d proxy'',
                         ''Tidak ada proxy yang ditemukan, keluar...''],
             files = [goodProxiesFile \<mapsto> ''old'']\<rparr>
   \<and> (\<exists>r. main (world_only [''1.2.3.4:8080'']) disk_ok
         (\<lambda>url. Inr [''1.2.3.4:8080'', ''1.2.3.4:8080'', ''5.6.7.8:3128''])
         proxySources (one_by_one 2) Map.empty
       = Some r \<and> exit_status r = 0 \<and> files r goodProxiesFile = Some ''1.2.3.4:8080'')"
proof -
  define get :: "string \<Rightarrow> nat \<Rightarrow> error + Response" where "get = (\<lambda>url i. Inl (Error ''timeout''))"
  define scrape :: "string \<Rightarrow> error + string list" where
    "scrape = (\<lambda>url. Inl (Error ''timeout''))"
  define fs1 :: fs where "fs1 = [''claude_valid_proxies.txt'' \<mapsto> ''old'']"
  define fs2 :: fs where "fs2 = [goodProxiesFile \<mapsto> ''old'']"
  define w :: "string world" where "w = world_failing []"
  define a where "a = ''1.2.3.4:8080''"
  define b where "b = ''5.6.7.8:3128''"
  define pa where "pa = \<lparr>IP = ''1.2.3.4'', Port = ''8080'', Full = a\<rparr>"
  define w1 where "w1 = world_only [a]"
  define get1 :: "string \<Rightarrow> nat \<Rightarrow> error + Response" where "get1 = (\<lambda>url. source_first)"
  define scrape1 :: "string \<Rightarrow> error + string list" where "scrape1 = (\<lambda>url. Inr [a, a, b])"
  define sched4 where "sched4 = one_by_one 2"
  have ab: "a \<noteq> b" "Full pa = a" by (simp_all add: a_def b_def pa_def)
  \<comment> \<open>every source times out\<close>
  have "fst (scrapeProxiesFromURL net_ParseIP (get url))
      = Returns (Inl (Wrap ''failed to fetch after 3 attempts'' (Error ''timeout'')))" for url
    by (rule scrapeProxiesFromURL_all_fail) (simp add: get_def)
  then have h1: "ProxyChecker_harvested net_ParseIP get ProxyChecker_proxySources = []"
    by (simp add: ProxyChecker_harvested_def)
  have h2: "harvested scrape proxySources = []"
    by (simp add: harvested_def scrape_def)
  from empty_harvest_outcome
    [of net_ParseIP get ProxyChecker_proxySources w disk_ok "[]" fs1 _ scrape
      proxySources "[]" _] h1
  have c1: "\<exists>lg. ProxyChecker_main w disk_ok net_ParseIP get
         ProxyChecker_proxySources [] fs1
       = Some \<lparr>exit_status = 1,
               logged = [''Memulai Proxy Scraper dan Validator''] @ lg
                        @ [''Tidak ada proxy yang berhasil di-scrape''],
               files = fs1, left_valid = [], left_invalid = []\<rparr>"
    by blast
  from empty_harvest_outcome
    [of net_ParseIP get ProxyChecker_proxySources w disk_ok "[]" fs2 _ scrape
      proxySources "[]" _] h2
  have c2: "main w disk_ok scrape proxySources [] fs2
     = Some \<lparr>exit_status = 0,
             logged = [''Memulai proses scraping proxy...'']
                      @ snd (scrapeAllProxies scrape proxySources)
                      @ [''Berhasil mengumpulkan %d proxy'',
                         ''Tidak ada proxy yang ditemukan, keluar...''],
             files = fs2\<rparr>"
    by blast
  \<comment> \<open>every source answers\<close>
  have parse: "url_Parse w1 x = Inr x" for x
    by (simp add: w1_def world_only_def)
  have net: "http_Do w1 (''http://'' @ a) t = Inr \<lparr>StatusCode = 200, Body = Inr ''ok''\<rparr>"
    "http_Do w1 (''http://'' @ b) t = Inl (Error ''connection refused'')" for t
    using ab by (simp_all add: w1_def world_only_def)
  have trim: "TrimSpace ''ok'' \<noteq> []"
    by (simp add: TrimSpace_def ascii_space_def wide_space2_def wide_space3_def)
  have chk: "checkProxy w1 a" "\<not> checkProxy w1 b" "ProxyChecker_checkProxy w1 pa"
    using trim
    by (simp_all add: checkProxy_def checkWithClient_def targets_def
        ProxyChecker_checkProxy_def testProxyConnection_def client_Do_via_def
        parse net ab testURLs_def del: append.simps)
  have "fst (scrapeProxiesFromURL net_ParseIP (get1 url))
      = Returns (Inr (parseProxies net_ParseIP ''1.2.3.4:8080''))" for url
    using scrapeProxiesFromURL_success [of "get1 url" 0 source_answer net_ParseIP]
    by (simp add: get1_def source_first_def source_answer_def)
  then have "ProxyChecker_harvested net_ParseIP get1 ProxyChecker_proxySources
      = [pa, pa, pa, pa, pa, pa, pa, pa]"
    by (simp add: ProxyChecker_harvested_def parseProxies_example pa_def a_def
        ProxyChecker_proxySources_def)
  moreover have "removeDuplicateProxies [pa, pa, pa, pa, pa, pa, pa, pa] = [pa]"
    by (simp add: removeDuplicateProxies_def seen_lookup_def)
  ultimately obtain lg where
    all: "ProxyChecker_scrapeAllProxies net_ParseIP get1 ProxyChecker_proxySources
      = Returns ([pa], lg)"
    using ProxyChecker_scrapeAllProxies_harvested [of net_ParseIP get1 ProxyChecker_proxySources]
    by auto
  have "pool_run checker_maxWorkers (length [pa]) w1 [] (pool_init [pa]) = Some (pool_init [pa])"
    by simp
  from validateProxies_continues [OF this] obtain sched3 vs ivs where
    val: "validateProxies checker_maxWorkers w1 sched3 [pa] = Some (vs, ivs)"
    by auto
  have "0 < checker_maxWorkers" by (simp add: checker_maxWorkers_def)
  from validateProxies_result [OF val this] have
    sum: "mset vs + mset ivs = mset [pa]" and iv: "list_all (\<lambda>p. \<not> ProxyChecker_checkProxy w1 p) ivs"
    by simp_all
  from sum have "set ivs \<subseteq> {pa}"
    by (metis mset_eq_setD set_mset_mset set_mset_union Un_upper2 list.simps(15) empty_set)
  with iv chk(3) have "ivs = []" by (cases ivs) auto
  with sum have "mset vs = mset [pa]" by simp
  then have "vs = [pa]" by (metis mset_single_iff_right mset.simps(1) mset.simps(2))
  with val \<open>ivs = []\<close> have val': "validateProxies checker_maxWorkers w1 sched3 [pa]
      = Some ([pa], [])"
    by simp
  have "\<exists>r. ProxyChecker_main w1 disk_ok net_ParseIP get1
      ProxyChecker_proxySources sched3 Map.empty = Some r \<and> left_valid r = [pa]"
    by (simp add: ProxyChecker_main_def all val' Let_def split: prod.splits)
  then obtain r3 where r3: "ProxyChecker_main w1 disk_ok net_ParseIP get1
      ProxyChecker_proxySources sched3 Map.empty = Some r3"
    "left_valid r3 = [pa]"
    by blast
  have "ProxyChecker_harvested net_ParseIP get1 ProxyChecker_proxySources \<noteq> []"
    using \<open>ProxyChecker_harvested net_ParseIP get1 ProxyChecker_proxySources
      = [pa, pa, pa, pa, pa, pa, pa, pa]\<close> by simp
  with empty_harvest_outcome
    [of net_ParseIP get1 ProxyChecker_proxySources w1 disk_ok sched3
      Map.empty r3 scrape proxySources "[]" _] r3(1)
  have "exit_status r3 = 0" by blast
  with r3 have c3: "\<exists>sched r. ProxyChecker_main w1 disk_ok net_ParseIP get1
      ProxyChecker_proxySources sched Map.empty = Some r
      \<and> exit_status r = 0 \<and> left_valid r = [pa]"
    by blast
  have "harvested scrape1 proxySources = [a, a, b, a, a, b, a, a, b, a, a, b, a, a, b]"
    by (simp add: harvested_def scrape1_def proxySources_def)
  moreover have "deduplicateProxies [a, a, b, a, a, b, a, a, b, a, a, b, a, a, b] = [a, b]"
    using ab by (simp add: deduplicateProxies_def)
  ultimately have all1: "fst (scrapeAllProxies scrape1 proxySources) = [a, b]"
    by (simp add: scrapeAllProxies_harvested)
  have good: "checkProxiesConcurrently maxConcurrentChecks w1 sched4 [a, b] = Some [a]"
    by (simp add: sched4_def checkProxiesConcurrently_def one_by_one_def sem_init_def
        place_def move_def sem_final_def maxConcurrentChecks_def chk numeral_2_eq_2)
  have "\<exists>r. main w1 disk_ok scrape1 proxySources sched4
      Map.empty = Some r \<and> files r goodProxiesFile = Some a"
    using all1 good
    by (cases "scrapeAllProxies scrape1 proxySources")
      (simp add: main_def saveProxiesToFile_def disk_ok_def)
  then obtain r4 where r4: "main w1 disk_ok scrape1 proxySources sched4
      Map.empty = Some r4" "files r4 goodProxiesFile = Some a"
    by blast
  from empty_harvest_outcome
    [of net_ParseIP get ProxyChecker_proxySources w1 disk_ok "[]" Map.empty _ scrape1
      proxySources sched4 r4] r4(1)
  have "exit_status r4 = 0" by blast
  with r4 have c4: "\<exists>r. main w1 disk_ok scrape1 proxySources sched4
      Map.empty = Some r \<and> exit_status r = 0 \<and> files r goodProxiesFile = Some a"
    by blast
  from h1 c1 c3 h2 c2 c4 show ?thesis
    unfolding get_def scrape_def fs1_def fs2_def w_def w1_def get1_def scrape1_def pa_def
      a_def b_def sched4_def
    by (intro conjI)
qed

text \<open>
  The claim as the specification words it, a non-zero completion status, fails on
  \<^verbatim>\<open>deep.go\<close>: with every source timing out, \<^verbatim>\<open>main\<close> logs and returns, so the process
  ends with status 0.
\<close>

theorem empty_harvest_status_counterexample:
  "harvested (\<lambda>url. Inl (Error ''timeout'')) proxySources = []
   \<and> main (world_failing []) disk_ok (\<lambda>url. Inl (Error ''timeout''))
        proxySources [] Map.empty
     = Some \<lparr>exit_status = 0,
             logged = [''Memulai proses scraping proxy...'',
                       ''Gagal scrape %s: %v'', ''Gagal scrape %s: %v'', ''Gagal scrape %s: %v'',
                       ''Gagal scrape %s: %v'', ''Gagal scrape %s: %v'',
                       ''Berhasil mengumpulkan %d proxy'',
                       ''Tidak ada proxy yang ditemukan, keluar...''],
             files = Map.empty\<rparr>"
  by (simp add: harvested_def main_def scrapeAllProxies_def proxySources_def
      deduplicateProxies_def)



subsection \<open>Nothing live, nothing written\<close>

lemma main_files_no_live:
  assumes run: "main w d scrape order sched fs = Some r"
    and dead: "filter (checkProxy w) (fst (scrapeAllProxies scrape order)) = []"
  shows "files r = fs"
proof (cases "fst (scrapeAllProxies scrape order) = []")
  case True
  with run show ?thesis
    by (cases "scrapeAllProxies scrape order") (auto simp: main_def)
next
  case False
  obtain allProxies lg where all: "scrapeAllProxies scrape order = (allProxies, lg)"
    by (cases "scrapeAllProxies scrape order")
  with False run obtain good where
    good: "checkProxiesConcurrently maxConcurrentChecks w sched allProxies = Some good"
    by (auto simp: main_def Let_def split: option.splits)
  from dead all have "filter (checkProxy w) allProxies = []" by simp
  with checkProxiesConcurrently_result [OF good] have "mset good = {#}" by simp
  then have "good = []" by simp
  with run all False good show ?thesis
    by (auto simp: main_def Let_def saveProxiesToFile_def)
qed

text \<open>
  Claim C9. With no live proxy, \<^verbatim>\<open>saveProxiesToFile\<close> of \<^verbatim>\<open>deep.go\<close> logs one line and
  returns before \<^verbatim>\<open>os.WriteFile\<close>: whatever the disk would do on a write, the file system
  is the one it was given, so \<^verbatim>\<open>good_proxies.txt\<close> is not created and a file of that
  name keeps its content. This holds for every run of \<^verbatim>\<open>main\<close> in which no admitted
  candidate passes the check.
\<close>

theorem no_write_when_no_live:
  "saveProxiesToFile d [] filename fs = (fs, [''Tidak ada proxy yang valid untuk disimpan''])
   \<and> (main w d scrape order sched fs = Some r
        \<and> filter (checkProxy w) (fst (scrapeAllProxies scrape order)) = []
       \<longrightarrow> files r = fs \<and> files r goodProxiesFile = fs goodProxiesFile)"
  using main_files_no_live [of w d scrape order sched fs r]
  by (simp add: saveProxiesToFile_def)

text \<open>
  A run in which both candidates are dead, on a disk where every write would succeed
  and with a file of an earlier run in place.
\<close>

theorem no_write_when_no_live_witness:
  "saveProxiesToFile disk_ok [] goodProxiesFile [goodProxiesFile \<mapsto> ''9.9.9.9:80'']
     = ([goodProxiesFile \<mapsto> ''9.9.9.9:80''], [''Tidak ada proxy yang valid untuk disimpan''])
   \<and> filter (checkProxy (world_only []))
       (fst (scrapeAllProxies (\<lambda>url. Inr [''1.2.3.4:8080'', ''5.6.7.8:3128'']) proxySources))
     = []
   \<and> (\<exists>r. main (world_only []) disk_ok
         (\<lambda>url. Inr [''1.2.3.4:8080'', ''5.6.7.8:3128'']) proxySources (one_by_one 2)
         [goodProxiesFile \<mapsto> ''9.9.9.9:80'']
       = Some r \<and> files r = [goodProxiesFile \<mapsto> ''9.9.9.9:80''])"
proof -
  define a where "a = ''1.2.3.4:8080''"
  define b where "b = ''5.6.7.8:3128''"
  define w :: "string world" where "w = world_only []"
  define scrape :: "string \<Rightarrow> error + string list" where "scrape = (\<lambda>url. Inr [a, b])"
  define sched where "sched = one_by_one 2"
  define fs :: fs where "fs = [goodProxiesFile \<mapsto> ''9.9.9.9:80'']"
  have ab: "a \<noteq> b" by (simp add: a_def b_def)
  have chk: "\<not> checkProxy w p" for p
    by (simp add: checkProxy_def checkWithClient_def targets_def w_def world_only_def)
  have "harvested scrape proxySources = [a, b, a, b, a, b, a, b, a, b]"
    by (simp add: harvested_def scrape_def proxySources_def)
  moreover have "deduplicateProxies [a, b, a, b, a, b, a, b, a, b] = [a, b]"
    using ab by (simp add: deduplicateProxies_def)
  ultimately have all: "fst (scrapeAllProxies scrape proxySources) = [a, b]"
    by (simp add: scrapeAllProxies_harvested)
  then have dead: "filter (checkProxy w) (fst (scrapeAllProxies scrape proxySources)) = []"
    by (simp add: chk)
  have good: "checkProxiesConcurrently maxConcurrentChecks w sched [a, b] = Some []"
    by (simp add: sched_def checkProxiesConcurrently_def one_by_one_def sem_init_def
        place_def move_def sem_final_def maxConcurrentChecks_def chk numeral_2_eq_2)
  have "\<exists>r. main w disk_ok scrape proxySources sched fs = Some r"
    using all good
    by (cases "scrapeAllProxies scrape proxySources")
      (simp add: main_def saveProxiesToFile_def)
  then obtain r where r: "main w disk_ok scrape proxySources sched fs
      = Some r"
    by blast
  note rule = no_write_when_no_live
    [of disk_ok goodProxiesFile fs w scrape proxySources sched r]
  from rule r dead have "files r = fs" by blast
  with r have c: "\<exists>r. main w disk_ok scrape proxySources sched fs
      = Some r \<and> files r = fs"
    by blast
  from rule have s: "saveProxiesToFile disk_ok [] goodProxiesFile fs
     = (fs, [''Tidak ada proxy yang valid untuk disimpan''])"
    by blast
  from s dead c show ?thesis
    unfolding a_def b_def w_def scrape_def sched_def fs_def by (intro conjI)
qed

subsection \<open>The order of the lists\<close>

lemma main_files:
  assumes run: "main w d scrape order sched fs = Some r" and ne: "harvested scrape order \<noteq> []"
  shows "files r =
    (if append_order w (deduplicateProxies (harvested scrape order)) sched = [] then fs
     else fst (os_WriteFile d goodProxiesFile
       (Join (append_order w (deduplicateProxies (harvested scrape order)) sched) ''\<newline>'') fs))"
proof -
  obtain allProxies lg where all: "scrapeAllProxies scrape order = (allProxies, lg)"
    by (cases "scrapeAllProxies scrape order")
  with scrapeAllProxies_harvested [of scrape order] have
    a: "deduplicateProxies (harvested scrape order) = allProxies"
    by simp
  with ne have n: "allProxies \<noteq> []" by (auto simp: deduplicateProxies_Nil_iff)
  with run all obtain good where
    good: "checkProxiesConcurrently maxConcurrentChecks w sched allProxies = Some good"
    by (auto simp: main_def Let_def split: option.splits)
  from checkProxiesConcurrently_order [OF good] have g: "append_order w allProxies sched = good"
    by simp
  from run all n good show ?thesis
    unfolding a g
    by (auto simp: main_def Let_def saveProxiesToFile_def split: prod.splits option.splits)
qed

lemma ProxyChecker_main_lists:
  assumes run: "ProxyChecker_main w d ParseIP get order sched fs = Some r"
    and ne: "ProxyChecker_harvested ParseIP get order \<noteq> []"
  shows "validateProxies checker_maxWorkers w sched
      (removeDuplicateProxies (ProxyChecker_harvested ParseIP get order))
      = Some (left_valid r, left_invalid r)"
    and "files r = fst (ProxyChecker_saveProxiesToFile d (left_invalid r)
        ''claude_invalid_proxies.txt''
        (fst (ProxyChecker_saveProxiesToFile d (left_valid r) ''claude_valid_proxies.txt'' fs)))"
proof -
  from ProxyChecker_scrapeAllProxies_harvested [of ParseIP get order] obtain lg where
    h: "ProxyChecker_scrapeAllProxies ParseIP get order
      = Returns (removeDuplicateProxies (ProxyChecker_harvested ParseIP get order), lg)"
    by blast
  from ne have n: "removeDuplicateProxies (ProxyChecker_harvested ParseIP get order) \<noteq> []"
    by (simp add: removeDuplicateProxies_Nil_iff)
  from run h n show "validateProxies checker_maxWorkers w sched
      (removeDuplicateProxies (ProxyChecker_harvested ParseIP get order))
      = Some (left_valid r, left_invalid r)"
    by (auto simp: ProxyChecker_main_def Let_def split: option.splits prod.splits)
  from run h n show "files r = fst (ProxyChecker_saveProxiesToFile d (left_invalid r)
        ''claude_invalid_proxies.txt''
        (fst (ProxyChecker_saveProxiesToFile d (left_valid r) ''claude_valid_proxies.txt'' fs)))"
    by (auto simp: ProxyChecker_main_def Let_def split: option.splits prod.splits)
qed

lemma ProxyChecker_saveProxiesToFile_ok:
  "fst (ProxyChecker_saveProxiesToFile disk_ok proxies filename fs)
     = fs(filename \<mapsto> concat (map (\<lambda>proxy. Full proxy @ ''\<newline>'') proxies))"
  by (simp add: ProxyChecker_saveProxiesToFile_def disk_ok_def)

text \<open>
  Claim C10, as amended. Both deduplications return the first occurrences of their
  input in the order of the input, so the candidates reach validation in the order of
  discovery. The lists that are persisted are in the order of the appends:
  \<^item> \<^verbatim>\<open>checkProxiesConcurrently\<close> returns the live candidates, each once, in the order in
    which their goroutines pass the append under the mutex, for every schedule; \<^verbatim>\<open>main\<close>
    of \<^verbatim>\<open>deep.go\<close> writes this list, joined by line feeds, to \<^verbatim>\<open>good_proxies.txt\<close>, and
    writes nothing when it is empty;
  \<^item> \<^verbatim>\<open>validateProxies\<close> leaves in \<^verbatim>\<open>validProxies\<close> and \<^verbatim>\<open>invalidProxies\<close> the live and the
    dead candidates in the order in which the workers append them, and with a worker
    every candidate is appended once; \<^verbatim>\<open>main\<close> of the \<^verbatim>\<open>ProxyChecker\<close> program saves the
    two lists in this order, one line per proxy.
\<close>

theorem dedup_keeps_first_occurrences:
  "deduplicateProxies xs = first_occurrences (\<lambda>a. a) xs
   \<and> removeDuplicateProxies ps = first_occurrences Full ps
   \<and> (checkProxiesConcurrently W w sched (deduplicateProxies xs) = Some good \<longrightarrow>
        mset good = mset (filter (checkProxy w) (first_occurrences (\<lambda>a. a) xs))
        \<and> good = append_order w (first_occurrences (\<lambda>a. a) xs) sched)
   \<and> (validateProxies M w sched' (removeDuplicateProxies ps) = Some (vs, ivs) \<longrightarrow>
        vs = filter (ProxyChecker_checkProxy w)
               (pool_appends M w sched' (first_occurrences Full ps))
        \<and> ivs = filter (\<lambda>p. \<not> ProxyChecker_checkProxy w p)
               (pool_appends M w sched' (first_occurrences Full ps))
        \<and> (0 < M \<longrightarrow> mset (pool_appends M w sched' (first_occurrences Full ps))
               = mset (first_occurrences Full ps)))
   \<and> (main w d scrape order sched fs = Some r \<and> harvested scrape order \<noteq> []
        \<and> live = append_order w (first_occurrences (\<lambda>a. a) (harvested scrape order)) sched
       \<longrightarrow> files r = (if live = [] then fs
                      else fst (os_WriteFile d goodProxiesFile (Join live ''\<newline>'') fs)))
   \<and> (ProxyChecker_main w d ParseIP get order' sched' fs = Some r'
        \<and> ProxyChecker_harvested ParseIP get order' \<noteq> []
        \<and> appends = pool_appends checker_maxWorkers w sched'
            (first_occurrences Full (ProxyChecker_harvested ParseIP get order'))
       \<longrightarrow> left_valid r' = filter (ProxyChecker_checkProxy w) appends
           \<and> left_invalid r' = filter (\<lambda>p. \<not> ProxyChecker_checkProxy w p) appends
           \<and> mset appends = mset (first_occurrences Full (ProxyChecker_harvested ParseIP get order'))
           \<and> files r' = fst (ProxyChecker_saveProxiesToFile d (left_invalid r')
               ''claude_invalid_proxies.txt''
               (fst (ProxyChecker_saveProxiesToFile d (left_valid r')
                  ''claude_valid_proxies.txt'' fs))))
   \<and> fst (ProxyChecker_saveProxiesToFile disk_ok vs filename fs)
       = fs(filename \<mapsto> concat (map (\<lambda>proxy. Full proxy @ ''\<newline>'') vs))"
proof -
  have a: "deduplicateProxies xs = first_occurrences (\<lambda>a. a) xs" for xs
    by (simp add: deduplicateProxies_firsts firsts_from_first_occurrences)
  have b: "removeDuplicateProxies ps = first_occurrences Full ps" for ps
    by (simp add: removeDuplicateProxies_firsts firsts_from_first_occurrences)
  have c: "mset good = mset (filter (checkProxy w) (first_occurrences (\<lambda>a. a) xs))
      \<and> good = append_order w (first_occurrences (\<lambda>a. a) xs) sched"
    if "checkProxiesConcurrently W w sched (deduplicateProxies xs) = Some good"
    using checkProxiesConcurrently_result [OF that] checkProxiesConcurrently_order [OF that]
    by (simp add: a)
  have d: "vs = filter (ProxyChecker_checkProxy w)
               (pool_appends M w sched' (first_occurrences Full ps))
        \<and> ivs = filter (\<lambda>p. \<not> ProxyChecker_checkProxy w p)
               (pool_appends M w sched' (first_occurrences Full ps))
        \<and> (0 < M \<longrightarrow> mset (pool_appends M w sched' (first_occurrences Full ps))
               = mset (first_occurrences Full ps))"
    if "validateProxies M w sched' (removeDuplicateProxies ps) = Some (vs, ivs)"
    using validateProxies_order [OF that] validateProxies_appends_all [OF that]
    by (simp add: b)
  have e: "files r = (if live = [] then fs
                      else fst (os_WriteFile d goodProxiesFile (Join live ''\<newline>'') fs))"
    if "main w d scrape order sched fs = Some r" "harvested scrape order \<noteq> []"
      "live = append_order w (first_occurrences (\<lambda>a. a) (harvested scrape order)) sched"
    using main_files [OF that(1,2)] that(3) by (simp add: a)
  have f: "left_valid r' = filter (ProxyChecker_checkProxy w) appends
           \<and> left_invalid r' = filter (\<lambda>p. \<not> ProxyChecker_checkProxy w p) appends
           \<and> mset appends = mset (first_occurrences Full (ProxyChecker_harvested ParseIP get order'))
           \<and> files r' = fst (ProxyChecker_saveProxiesToFile d (left_invalid r')
               ''claude_invalid_proxies.txt''
               (fst (ProxyChecker_saveProxiesToFile d (left_valid r')
                  ''claude_valid_proxies.txt'' fs)))"
    if "ProxyChecker_main w d ParseIP get order' sched' fs = Some r'"
      "ProxyChecker_harvested ParseIP get order' \<noteq> []"
      "appends = pool_appends checker_maxWorkers w sched'
            (first_occurrences Full (ProxyChecker_harvested ParseIP get order'))"
  proof -
    note v = ProxyChecker_main_lists [OF that(1,2)]
    have "0 < checker_maxWorkers" by (simp add: checker_maxWorkers_def)
    from validateProxies_order [OF v(1)] validateProxies_appends_all [OF v(1) this] v(2) that(3)
    show ?thesis by (simp add: b)
  qed
  note g = ProxyChecker_saveProxiesToFile_ok [of vs filename fs]
  from a [of xs] b [of ps] c d e f g show ?thesis by blast
qed

text \<open>
  Two live candidates, the second of which is appended first although its check ends
  last: the lists returned, and the file written, have them in the order of the appends.
  In the \<^verbatim>\<open>ProxyChecker\<close> program, with its hundred workers, every source yields the one
  address.
\<close>

theorem dedup_keeps_first_occurrences_witness:
  "deduplicateProxies [''1.2.3.4:8080'', ''5.6.7.8:3128'', ''1.2.3.4:8080'']
     = [''1.2.3.4:8080'', ''5.6.7.8:3128'']
   \<and> first_occurrences (\<lambda>a. a) [''1.2.3.4:8080'', ''5.6.7.8:3128'', ''1.2.3.4:8080'']
     = [''1.2.3.4:8080'', ''5.6.7.8:3128'']
   \<and> checkProxiesConcurrently 2 (world_only [''1.2.3.4:8080'', ''5.6.7.8:3128''])
       [Go 0, Go 1, Acquire 0, Acquire 1, Check 0, Check 1, Release 1, Report 1,
        Release 0, Report 0]
       (deduplicateProxies [''1.2.3.4:8080'', ''5.6.7.8:3128'', ''1.2.3.4:8080''])
     = Some [''5.6.7.8:3128'', ''1.2.3.4:8080'']
   \<and> mset [''5.6.7.8:3128'', ''1.2.3.4:8080'']
     = mset (filter (checkProxy (world_only [''1.2.3.4:8080'', ''5.6.7.8:3128'']))
         (first_occurrences (\<lambda>a. a) [''1.2.3.4:8080'', ''5.6.7.8:3128'', ''1.2.3.4:8080'']))
   \<and> [''5.6.7.8:3128'', ''1.2.3.4:8080'']
     = append_order (world_only [''1.2.3.4:8080'', ''5.6.7.8:3128''])
         (first_occurrences (\<lambda>a. a) [''1.2.3.4:8080'', ''5.6.7.8:3128'', ''1.2.3.4:8080''])
         [Go 0, Go 1, Acquire 0, Acquire 1, Check 0, Check 1, Release 1, Report 1,
          Release 0, Report 0]
   \<and> validateProxies 2 (world_only [''1.2.3.4:8080'', ''5.6.7.8:3128''])
       [StartWorker, StartWorker, SendJob, SendJob, CloseJobs, Receive 0, Receive 1,
        Test 0, Test 1, Append 1, Append 0, Exit 0, Exit 1]
       (removeDuplicateProxies
          [\<lparr>IP = ''1.2.3.4'', Port = ''8080'', Full = ''1.2.3.4:8080''\<rparr>,
           \<lparr>IP = ''5.6.7.8'', Port = ''3128'', Full = ''5.6.7.8:3128''\<rparr>,
           \<lparr>IP = ''1.2.3.4'', Port = ''8080'', Full = ''1.2.3.4:8080''\<rparr>])
     = Some ([\<lparr>IP = ''5.6.7.8'', Port = ''3128'', Full = ''5.6.7.8:3128''\<rparr>,
              \<lparr>IP = ''1.2.3.4'', Port = ''8080'', Full = ''1.2.3.4:8080''\<rparr>], [])
   \<and> pool_appends 2 (world_only [''1.2.3.4:8080'', ''5.6.7.8:3128''])
       [StartWorker, StartWorker, SendJob, SendJob, CloseJobs, Receive 0, Receive 1,
        Test 0, Test 1, Append 1, Append 0, Exit 0, Exit 1]
       (first_occurrences Full
          [\<lparr>IP = ''1.2.3.4'', Port = ''8080'', Full = ''1.2.3.4:8080''\<rparr>,
           \<lparr>IP = ''5.6.7.8'', Port = ''3128'', Full = ''5.6.7.8:3128''\<rparr>,
           \<lparr>IP = ''1.2.3.4'', Port = ''8080'', Full = ''1.2.3.4:8080''\<rparr>])
     = [\<lparr>IP = ''5.6.7.8'', Port = ''3128'', Full = ''5.6.7.8:3128''\<rparr>,
        \<lparr>IP = ''1.2.3.4'', Port = ''8080'', Full = ''1.2.3.4:8080''\<rparr>]
   \<and> (\<exists>r. main (world_only [''1.2.3.4:8080'', ''5.6.7.8:3128'']) disk_ok
         (\<lambda>url. if url = ''https://free-proxy-list.net/''
                 then Inr [''1.2.3.4:8080'', ''5.6.7.8:3128'', ''1.2.3.4:8080'']
                 else Inl (Error ''timeout''))
         proxySources
         [Go 0, Go 1, Acquire 0, Acquire 1, Check 0, Check 1, Release 1, Report 1,
          Release 0, Report 0]
         Map.empty
       = Some r \<and> files r = [goodProxiesFile \<mapsto> ''5.6.7.8:3128\<newline>1.2.3.4:8080''])
   \<and> (\<exists>sched r. ProxyChecker_main (world_only [''1.2.3.4:8080'', ''5.6.7.8:3128'']) disk_ok
         net_ParseIP (\<lambda>url. source_first) ProxyChecker_proxySources sched Map.empty
       = Some r
         \<and> left_valid r = [\<lparr>IP = ''1.2.3.4'', Port = ''8080'', Full = ''1.2.3.4:8080''\<rparr>]
         \<and> left_invalid r = []
         \<and> files r = [''claude_valid_proxies.txt'' \<mapsto> ''1.2.3.4:8080\<newline>'',
                      ''claude_invalid_proxies.txt'' \<mapsto> []])"
proof -
  define a where "a = ''1.2.3.4:8080''"
  define b where "b = ''5.6.7.8:3128''"
  define w :: "string world" where "w = world_only [a, b]"
  define pa where "pa = \<lparr>IP = ''1.2.3.4'', Port = ''8080'', Full = a\<rparr>"
  define pb where "pb = \<lparr>IP = ''5.6.7.8'', Port = ''3128'', Full = b\<rparr>"
  define sched where "sched = [Go 0, Go 1, Acquire 0, Acquire 1, Check 0, Check 1,
    Release 1, Report 1, Release 0, Report 0]"
  define sched' where "sched' = [StartWorker, StartWorker, SendJob, SendJob, CloseJobs,
    Receive 0, Receive 1, Test 0, Test 1, Append 1, Append 0, Exit 0, Exit 1]"
  define scrape :: "string \<Rightarrow> error + string list" where
    "scrape = (\<lambda>url. if url = ''https://free-proxy-list.net/''
                 then Inr [a, b, a] else Inl (Error ''timeout''))"
  define get1 :: "string \<Rightarrow> nat \<Rightarrow> error + Response" where "get1 = (\<lambda>url. source_first)"
  define content where "content = ''5.6.7.8:3128\<newline>1.2.3.4:8080''"
  define line where "line = ''1.2.3.4:8080\<newline>''"
  define valid_file where "valid_file = ''claude_valid_proxies.txt''"
  define invalid_file where "invalid_file = ''claude_invalid_proxies.txt''"
  have ab: "a \<noteq> b" "Full pa = a" "Full pb = b" "pa \<noteq> pb"
    by (simp_all add: a_def b_def pa_def pb_def)
  have dd: "deduplicateProxies [a, b, a] = [a, b]"
    using ab by (simp add: deduplicateProxies_def)
  have rd: "removeDuplicateProxies [pa, pb, pa] = [pa, pb]"
    using ab by (simp add: removeDuplicateProxies_def seen_lookup_def)
  have parse: "url_Parse w x = Inr x" for x
    by (simp add: w_def world_only_def)
  have net: "http_Do w (''http://'' @ a) t = Inr \<lparr>StatusCode = 200, Body = Inr ''ok''\<rparr>"
    "http_Do w (''http://'' @ b) t = Inr \<lparr>StatusCode = 200, Body = Inr ''ok''\<rparr>" for t
    by (simp_all add: w_def world_only_def)
  have trim: "TrimSpace ''ok'' \<noteq> []"
    by (simp add: TrimSpace_def ascii_space_def wide_space2_def wide_space3_def)
  have chk: "checkProxy w a" "checkProxy w b"
    by (simp_all add: checkProxy_def parse net checkWithClient_def targets_def
        del: append.simps)
  have chk': "ProxyChecker_checkProxy w pa" "ProxyChecker_checkProxy w pb"
    using trim
    by (simp_all add: ProxyChecker_checkProxy_def testProxyConnection_def client_Do_via_def
        parse net ab testURLs_def del: append.simps)
  \<comment> \<open>the two validators, two candidates, the second appended first\<close>
  have run: "checkProxiesConcurrently 2 w sched [a, b] = Some [b, a]"
    by (simp add: sched_def checkProxiesConcurrently_def sem_init_def place_def move_def
        sem_final_def chk)
  then have run': "checkProxiesConcurrently 2 w sched (deduplicateProxies [a, b, a])
      = Some [b, a]"
    by (simp only: dd)
  have val: "validateProxies 2 w sched' [pa, pb] = Some ([pb, pa], [])"
    by (simp add: sched'_def validateProxies_def pool_init_def worker_at_def starting_def
        pool_final_def chk')
  then have val': "validateProxies 2 w sched' (removeDuplicateProxies [pa, pb, pa])
      = Some ([pb, pa], [])"
    by (simp only: rd)
  note rule = dedup_keeps_first_occurrences
    [where xs = "[a, b, a]" and ps = "[pa, pb, pa]" and W = 2 and w = w and sched = sched
       and good = "[b, a]" and M = 2 and sched' = sched' and vs = "[pb, pa]" and ivs = "[]"]
  note r1 = rule [THEN conjunct1]
  note r2 = rule [THEN conjunct2, THEN conjunct1]
  note r3 = rule [THEN conjunct2, THEN conjunct2, THEN conjunct1, rule_format]
  note r4 = rule [THEN conjunct2, THEN conjunct2, THEN conjunct2, THEN conjunct1, rule_format]
  from r1 dd have fo: "first_occurrences (\<lambda>a. a) [a, b, a] = [a, b]" by simp
  from r2 rd have fo': "first_occurrences Full [pa, pb, pa] = [pa, pb]" by simp
  from r3 [OF run'] have m: "mset [b, a]
      = mset (filter (checkProxy w) (first_occurrences (\<lambda>a. a) [a, b, a]))"
    and ord: "[b, a] = append_order w (first_occurrences (\<lambda>a. a) [a, b, a]) sched"
    by blast+
  from r4 [OF val'] have
    "[pb, pa] = filter (ProxyChecker_checkProxy w)
        (pool_appends 2 w sched' (first_occurrences Full [pa, pb, pa]))"
    "[] = filter (\<lambda>p. \<not> ProxyChecker_checkProxy w p)
        (pool_appends 2 w sched' (first_occurrences Full [pa, pb, pa]))"
    by blast+
  then have app: "pool_appends 2 w sched' (first_occurrences Full [pa, pb, pa]) = [pb, pa]"
    by (metis filter_True filter_empty_conv)
  \<comment> \<open>\<^verbatim>\<open>deep.go\<close> from harvest to file\<close>
  have h: "harvested scrape proxySources = [a, b, a]"
    by (simp add: harvested_def scrape_def proxySources_def)
  with dd have all: "fst (scrapeAllProxies scrape proxySources) = [a, b]"
    by (simp add: scrapeAllProxies_harvested)
  have run200: "checkProxiesConcurrently maxConcurrentChecks w sched [a, b] = Some [b, a]"
    by (simp add: sched_def checkProxiesConcurrently_def sem_init_def place_def move_def
        sem_final_def chk maxConcurrentChecks_def)
  have "\<exists>r. main w disk_ok scrape proxySources sched Map.empty = Some r"
    using all run200
    by (cases "scrapeAllProxies scrape proxySources")
      (simp add: main_def saveProxiesToFile_def disk_ok_def)
  then obtain r where r: "main w disk_ok scrape proxySources sched Map.empty = Some r"
    by blast
  note r5 = dedup_keeps_first_occurrences
    [where w = w and d = disk_ok and scrape = scrape and order = proxySources
       and sched = sched and fs = Map.empty and r = r and live = "[b, a]",
     THEN conjunct2, THEN conjunct2, THEN conjunct2, THEN conjunct2, THEN conjunct1,
     rule_format]
  from h have ne0: "harvested scrape proxySources \<noteq> []" by simp
  from ord have "[b, a]
      = append_order w (first_occurrences (\<lambda>a. a) (harvested scrape proxySources)) sched"
    by (simp only: h)
  from r5 [OF conjI [OF r conjI [OF ne0 this]]] have "files r
      = fst (os_WriteFile disk_ok goodProxiesFile (Join [b, a] ''\<newline>'') Map.empty)"
    by simp
  then have "files r = [goodProxiesFile \<mapsto> content]"
    by (simp add: disk_ok_def content_def a_def b_def)
  with r have c1: "\<exists>r. main w disk_ok scrape proxySources sched Map.empty = Some r
      \<and> files r = [goodProxiesFile \<mapsto> content]"
    by blast
  \<comment> \<open>the \<^verbatim>\<open>ProxyChecker\<close> program from harvest to file\<close>
  have "fst (scrapeProxiesFromURL net_ParseIP (get1 url))
      = Returns (Inr (parseProxies net_ParseIP ''1.2.3.4:8080''))" for url
    using scrapeProxiesFromURL_success [of "get1 url" 0 source_answer net_ParseIP]
    by (simp add: get1_def source_first_def source_answer_def)
  then have h': "ProxyChecker_harvested net_ParseIP get1 ProxyChecker_proxySources
      = [pa, pa, pa, pa, pa, pa, pa, pa]"
    by (simp add: ProxyChecker_harvested_def parseProxies_example pa_def a_def
        ProxyChecker_proxySources_def)
  have rd': "removeDuplicateProxies [pa, pa, pa, pa, pa, pa, pa, pa] = [pa]"
    by (simp add: removeDuplicateProxies_def seen_lookup_def)
  with h' obtain lg where
    all': "ProxyChecker_scrapeAllProxies net_ParseIP get1 ProxyChecker_proxySources
      = Returns ([pa], lg)"
    using ProxyChecker_scrapeAllProxies_harvested [of net_ParseIP get1 ProxyChecker_proxySources]
    by auto
  have "pool_run checker_maxWorkers (length [pa]) w [] (pool_init [pa]) = Some (pool_init [pa])"
    by simp
  from validateProxies_continues [OF this] obtain sched3 vs ivs where
    val3: "validateProxies checker_maxWorkers w sched3 [pa] = Some (vs, ivs)"
    by auto
  have "\<exists>r. ProxyChecker_main w disk_ok net_ParseIP get1
      ProxyChecker_proxySources sched3 Map.empty = Some r"
    by (simp add: ProxyChecker_main_def all' val3 Let_def split: prod.splits)
  then obtain r3 where r3: "ProxyChecker_main w disk_ok net_ParseIP get1
      ProxyChecker_proxySources sched3 Map.empty = Some r3"
    by blast
  define appends where "appends = pool_appends checker_maxWorkers w sched3
    (first_occurrences Full (ProxyChecker_harvested net_ParseIP get1 ProxyChecker_proxySources))"
  note inst = dedup_keeps_first_occurrences
    [where w = w and d = disk_ok and ParseIP = net_ParseIP and get = get1
       and order' = ProxyChecker_proxySources and sched' = sched3 and fs = Map.empty
       and r' = r3 and appends = appends and ps = "[pa, pa, pa, pa, pa, pa, pa, pa]"]
  note r2' = inst [THEN conjunct2, THEN conjunct1]
  note r6 = inst [THEN conjunct2, THEN conjunct2, THEN conjunct2, THEN conjunct2,
      THEN conjunct2, THEN conjunct1, rule_format]
  from r2' rd' have fo3: "first_occurrences Full [pa, pa, pa, pa, pa, pa, pa, pa] = [pa]"
    by simp
  from h' have ne: "ProxyChecker_harvested net_ParseIP get1 ProxyChecker_proxySources \<noteq> []"
    by simp
  from r6 [OF conjI [OF r3 conjI [OF ne appends_def]]] have
    lv: "left_valid r3 = filter (ProxyChecker_checkProxy w) appends"
    and li: "left_invalid r3 = filter (\<lambda>p. \<not> ProxyChecker_checkProxy w p) appends"
    and ma: "mset appends
      = mset (first_occurrences Full
          (ProxyChecker_harvested net_ParseIP get1 ProxyChecker_proxySources))"
    and fi: "files r3 = fst (ProxyChecker_saveProxiesToFile disk_ok (left_invalid r3)
               ''claude_invalid_proxies.txt''
               (fst (ProxyChecker_saveProxiesToFile disk_ok (left_valid r3)
                  ''claude_valid_proxies.txt'' Map.empty)))"
    by blast+
  from ma h' fo3 have "mset appends = {#pa#}" by simp
  then have "appends = [pa]" by (metis mset_single_iff_right)
  with lv li chk'(1) have l: "left_valid r3 = [pa]" "left_invalid r3 = []" by simp_all
  note r7 = dedup_keeps_first_occurrences
    [where vs = "[pa]" and filename = "''claude_valid_proxies.txt''" and fs = Map.empty,
      THEN conjunct2, THEN conjunct2, THEN conjunct2, THEN conjunct2,
      THEN conjunct2, THEN conjunct2]
  note r8 = dedup_keeps_first_occurrences
    [where vs = "[]" and filename = "''claude_invalid_proxies.txt''"
       and fs = "[''claude_valid_proxies.txt'' \<mapsto> line]",
      THEN conjunct2, THEN conjunct2, THEN conjunct2, THEN conjunct2,
      THEN conjunct2, THEN conjunct2]
  from fi l r7 r8 ab(2)
  have "files r3 = [''claude_valid_proxies.txt'' \<mapsto> line, ''claude_invalid_proxies.txt'' \<mapsto> []]"
    by (simp add: line_def a_def)
  with r3 l have c2: "\<exists>sched r. ProxyChecker_main w disk_ok net_ParseIP get1
      ProxyChecker_proxySources sched Map.empty = Some r
      \<and> left_valid r = [pa] \<and> left_invalid r = []
      \<and> files r = [''claude_valid_proxies.txt'' \<mapsto> line, ''claude_invalid_proxies.txt'' \<mapsto> []]"
    by blast
  from dd fo run' m ord val' app c1 c2 show ?thesis
    unfolding a_def b_def w_def pa_def pb_def sched_def sched'_def scrape_def get1_def
      content_def line_def
    by (intro conjI)
qed

text \<open>
  The claim as the specification words it fails in its last part: the persisted live
  list need not reflect the order of discovery. One source yields \<^verbatim>\<open>1.2.3.4:8080\<close>,
  \<^verbatim>\<open>5.6.7.8:3128\<close>, \<^verbatim>\<open>1.2.3.4:8080\<close>; both addresses are live; the goroutine of the second
  one appends first; \<^verbatim>\<open>good_proxies.txt\<close> then lists the second address before the first.
\<close>

theorem live_list_order_counterexample:
  "fst (scrapeAllProxies
         (\<lambda>url. if url = ''https://free-proxy-list.net/''
                 then Inr [''1.2.3.4:8080'', ''5.6.7.8:3128'', ''1.2.3.4:8080'']
                 else Inl (Error ''timeout''))
         proxySources)
     = [''1.2.3.4:8080'', ''5.6.7.8:3128'']
   \<and> map_option (\<lambda>r. files r goodProxiesFile)
       (main (world_only [''1.2.3.4:8080'', ''5.6.7.8:3128'']) disk_ok
         (\<lambda>url. if url = ''https://free-proxy-list.net/''
                 then Inr [''1.2.3.4:8080'', ''5.6.7.8:3128'', ''1.2.3.4:8080'']
                 else Inl (Error ''timeout''))
         proxySources
         [Go 0, Go 1, Acquire 0, Acquire 1, Check 1, Check 0, Release 1, Report 1,
          Release 0, Report 0]
         Map.empty)
     = Some (Some ''5.6.7.8:3128\<newline>1.2.3.4:8080'')"
proof -
  define a where "a = ''1.2.3.4:8080''"
  define b where "b = ''5.6.7.8:3128''"
  define w :: "string world" where "w = world_only [a, b]"
  define sched where "sched = [Go 0, Go 1, Acquire 0, Acquire 1, Check 1, Check 0,
    Release 1, Report 1, Release 0, Report 0]"
  define scrape :: "string \<Rightarrow> error + string list" where
    "scrape = (\<lambda>url. if url = ''https://free-proxy-list.net/''
                 then Inr [a, b, a] else Inl (Error ''timeout''))"
  have ab: "a \<noteq> b" by (simp add: a_def b_def)
  have chk: "checkProxy w a" "checkProxy w b"
    by (simp_all add: checkProxy_def checkWithClient_def targets_def w_def world_only_def)
  have "harvested scrape proxySources = [a, b, a]"
    by (simp add: harvested_def scrape_def proxySources_def)
  moreover have "deduplicateProxies [a, b, a] = [a, b]"
    using ab by (simp add: deduplicateProxies_def)
  ultimately have all: "fst (scrapeAllProxies scrape proxySources) = [a, b]"
    by (simp add: scrapeAllProxies_harvested)
  have run: "checkProxiesConcurrently maxConcurrentChecks w sched [a, b] = Some [b, a]"
    by (simp add: sched_def checkProxiesConcurrently_def sem_init_def place_def move_def
        sem_final_def chk maxConcurrentChecks_def)
  have "map_option (\<lambda>r. files r goodProxiesFile)
      (main w disk_ok scrape proxySources sched Map.empty) = Some (Some (b @ ''\<newline>'' @ a))"
    using all run
    by (cases "scrapeAllProxies scrape proxySources")
      (simp add: main_def saveProxiesToFile_def disk_ok_def)
  with all show ?thesis
    unfolding a_def b_def w_def sched_def scrape_def by simp
qed


end
